theory Spec2Isabelle
  imports Main
begin

unbundle bit_operations_syntax

section \<open>Python string and integer primitives used by the assembler\<close>

text \<open>
  Source text is a list of lines; a line is a \<open>string\<close> whose characters are read as
  the code points U+0000 .. U+00FF of a Python \<open>str\<close>.  The primitives below are the
  library functions that \<open>new.py\<close> calls, restricted to that range.
\<close>

definition isspace :: "char \<Rightarrow> bool" where
  \<comment> \<open>the characters \<open>str.split()\<close> and \<open>str.strip()\<close> treat as whitespace\<close>
  "isspace c \<longleftrightarrow>
     c \<in> set [CHR 0x09, CHR 0x0A, CHR 0x0B, CHR 0x0C, CHR 0x0D,
               CHR 0x1C, CHR 0x1D, CHR 0x1E, CHR 0x1F, CHR 0x20, CHR 0x85, CHR 0xA0]"

definition str_strip :: "string \<Rightarrow> string" where
  "str_strip s = rev (dropWhile isspace (rev (dropWhile isspace s)))"

function str_split :: "string \<Rightarrow> string list" where
  "str_split [] = []"
| "str_split (c # cs) =
     (if isspace c then str_split cs
      else (c # takeWhile (\<lambda>x. \<not> isspace x) cs)
             # str_split (dropWhile (\<lambda>x. \<not> isspace x) cs))"
  by pat_completeness auto
termination
  by (relation "measure length") (auto simp: length_dropWhile_le less_Suc_eq_le)

definition upper_char :: "char \<Rightarrow> char" where
  "upper_char c =
     (let n = (of_char c :: nat) in if 97 \<le> n \<and> n \<le> 122 then char_of (n - 32) else c)"

definition str_upper :: "string \<Rightarrow> string" where
  \<comment> \<open>\<open>str.upper()\<close> on the ASCII letters.  The characters beyond ASCII that Python
      also changes never become a character of a register name, so a lookup of
      the result in \<open>REGISTERS\<close> is not affected.\<close>
  "str_upper s = map upper_char s"

definition isdigit_char :: "char \<Rightarrow> bool" where
  \<comment> \<open>\<open>str.isdigit()\<close> holds of 0..9 and of the superscripts U+00B2, U+00B3, U+00B9\<close>
  "isdigit_char c \<longleftrightarrow>
     (let n = (of_char c :: nat) in (48 \<le> n \<and> n \<le> 57) \<or> n = 178 \<or> n = 179 \<or> n = 185)"

definition str_isdigit :: "string \<Rightarrow> bool" where
  "str_isdigit s \<longleftrightarrow> s \<noteq> [] \<and> list_all isdigit_char s"

definition lstrip_minus :: "string \<Rightarrow> string" where
  \<comment> \<open>\<open>s.lstrip('-')\<close>\<close>
  "lstrip_minus s = dropWhile (\<lambda>c. c = CHR ''-'') s"

definition endswith_colon :: "string \<Rightarrow> bool" where
  \<comment> \<open>\<open>s.endswith(":")\<close>\<close>
  "endswith_colon s \<longleftrightarrow> s \<noteq> [] \<and> last s = CHR '':''"

definition startswith_0x :: "string \<Rightarrow> bool" where
  \<comment> \<open>\<open>s.startswith('0x')\<close>\<close>
  "startswith_0x s \<longleftrightarrow> take 2 s = ''0x''"

subsection \<open>\<open>int(s, base)\<close>\<close>

text \<open>
  \<open>int\<close> accepts an optional sign, for base 16 (base 2) an optional prefix \<open>0x\<close>/\<open>0X\<close>
  (\<open>0b\<close>/\<open>0B\<close>) that one underscore may follow, and then digits of the base with single
  underscores between them; anything else raises \<open>ValueError\<close>, here \<open>None\<close>.  The
  surrounding whitespace that \<open>int\<close> would skip is not modelled: no argument the
  assembler passes to it has any (tokens come from \<open>split\<close>, and the one that is not
  checked by \<open>isdigit\<close> is stripped first).  For a base that is not a power of two the
  interpreter (CPython 3.11 and later, and the security releases before it) also raises
  \<open>ValueError\<close> when the literal has more digits than \<open>sys.get_int_max_str_digits()\<close>;
  the model takes the default limit, 4300 digits, which the assembler does not change.
\<close>

definition int_max_str_digits :: int where
  "int_max_str_digits = 4300"

definition digit_limit_exceeded :: "int \<Rightarrow> string \<Rightarrow> bool" where
  \<comment> \<open>the digits are the characters of the literal's body other than underscores\<close>
  "digit_limit_exceeded b s \<longleftrightarrow>
     b \<notin> set [2, 4, 8, 16, 32] \<and>
     int_max_str_digits < int (length (filter (\<lambda>c. c \<noteq> CHR ''_'') s))"

definition digit_value :: "char \<Rightarrow> int option" where
  "digit_value c =
     (let n = (of_char c :: int) in
      if 48 \<le> n \<and> n \<le> 57 then Some (n - 48)
      else if 97 \<le> n \<and> n \<le> 122 then Some (n - 87)
      else if 65 \<le> n \<and> n \<le> 90 then Some (n - 55)
      else None)"

definition digit_in :: "int \<Rightarrow> char \<Rightarrow> int option" where
  "digit_in b c = (case digit_value c of None \<Rightarrow> None | Some v \<Rightarrow> if v < b then Some v else None)"

fun int_digits :: "int \<Rightarrow> int \<Rightarrow> string \<Rightarrow> int option" where
  "int_digits b acc [] = Some acc"
| "int_digits b acc (c # cs) =
     (if c = CHR ''_'' then
        (case cs of
           [] \<Rightarrow> None
         | d # ds \<Rightarrow> (case digit_in b d of None \<Rightarrow> None | Some v \<Rightarrow> int_digits b (acc * b + v) ds))
      else (case digit_in b c of None \<Rightarrow> None | Some v \<Rightarrow> int_digits b (acc * b + v) cs))"

definition int_body :: "int \<Rightarrow> string \<Rightarrow> int option" where
  "int_body b s =
     (if digit_limit_exceeded b s then None
      else (case s of
              [] \<Rightarrow> None
            | c # cs \<Rightarrow> (case digit_in b c of None \<Rightarrow> None | Some v \<Rightarrow> int_digits b v cs)))"

definition skip_prefix :: "int \<Rightarrow> string \<Rightarrow> string" where
  "skip_prefix b s =
     (case s of
        c0 # c1 # r \<Rightarrow>
          if c0 = CHR ''0'' \<and>
             ((b = 16 \<and> (c1 = CHR ''x'' \<or> c1 = CHR ''X'')) \<or>
              (b = 2 \<and> (c1 = CHR ''b'' \<or> c1 = CHR ''B'')))
          then (case r of u # r' \<Rightarrow> if u = CHR ''_'' then r' else r | [] \<Rightarrow> r)
          else s
      | _ \<Rightarrow> s)"

definition py_int :: "int \<Rightarrow> string \<Rightarrow> int option" where
  "py_int b s =
     (case s of
        [] \<Rightarrow> None
      | c # cs \<Rightarrow>
          if c = CHR ''-'' then map_option uminus (int_body b (skip_prefix b cs))
          else if c = CHR ''+'' then int_body b (skip_prefix b cs)
          else int_body b (skip_prefix b s))"

subsection \<open>\<open>format(n, '0<w>b')\<close>, \<open>format(n, '0<w>X')\<close> and \<open>str(n)\<close>\<close>

definition digit_char :: "bool \<Rightarrow> int \<Rightarrow> char" where
  "digit_char up d = (if d < 10 then char_of (48 + d) else char_of ((if up then 55 else 87) + d))"

function digits :: "int \<Rightarrow> bool \<Rightarrow> int \<Rightarrow> string" where
  "digits b up n =
     (if n < b \<or> b < 2 then [digit_char up n]
      else digits b up (n div b) @ [digit_char up (n mod b)])"
  by pat_completeness auto
termination
  by (relation "measure (\<lambda>(b, up, n). nat n)") (auto intro!: int_div_less_self)

declare digits.simps [simp del]

definition zfill :: "nat \<Rightarrow> string \<Rightarrow> string" where
  "zfill w s = replicate (w - length s) (CHR ''0'') @ s"

definition py_format :: "int \<Rightarrow> bool \<Rightarrow> nat \<Rightarrow> int \<Rightarrow> string" where
  \<comment> \<open>base, upper-case digits, minimal width, value; the sign counts in the width\<close>
  "py_format b up w n =
     (if n < 0 then CHR ''-'' # zfill (w - 1) (digits b up (- n))
      else zfill w (digits b up n))"

definition py_str :: "int \<Rightarrow> string" where
  "py_str n = py_format 10 False 0 n"

section \<open>Tables and process-wide state\<close>

definition OPCODES :: "string \<rightharpoonup> string" where
  "OPCODES = map_of
     [(''ADD'', ''00000''), (''SUB'', ''00001''), (''MUL'', ''00010''), (''DIV'', ''00011''),
      (''MOD'', ''00100''), (''CMP'', ''00101''), (''AND'', ''00110''), (''OR'', ''00111''),
      (''NOT'', ''01000''), (''MOV'', ''01001''), (''MOVU'', ''01001''), (''MOVH'', ''01001''),
      (''LSL'', ''01010''), (''LSR'', ''01011''), (''ASR'', ''01100''), (''NOP'', ''01101''),
      (''LD'', ''01110''), (''ST'', ''01111''), (''BEQ'', ''10000''), (''BGT'', ''10001''),
      (''B'', ''10010''), (''CALL'', ''10011''), (''RET'', ''10100''), (''END'', ''11111''),
      (''HLT'', ''11111'')]"

definition REGISTERS :: "string \<rightharpoonup> string" where
  "REGISTERS = map_of
     [(''R0'', ''0000''), (''R1'', ''0001''), (''R2'', ''0010''), (''R3'', ''0011''),
      (''R4'', ''0100''), (''R5'', ''0101''), (''R6'', ''0110''), (''R7'', ''0111''),
      (''R8'', ''1000''), (''R9'', ''1001''), (''R10'', ''1010''), (''R11'', ''1011''),
      (''R12'', ''1100''), (''R13'', ''1101''), (''R14'', ''1110''), (''R15'', ''1111'')]"

text \<open>
  The two module-level variables.  \<open>last_cmp\<close> holds a pair whose components are
  a register code, \<open>None\<close> (an unknown register name) or the decimal text of an
  immediate.
\<close>

record state =
  symbol_table :: "string \<rightharpoonup> int"
  last_cmp :: "(string option \<times> string option) option"

definition initial_state :: state where
  "initial_state = \<lparr>symbol_table = Map.empty, last_cmp = None\<rparr>"

section \<open>Pass 1: \<open>first_pass\<close>\<close>

text \<open>One iteration of the loop on the pair of the local \<open>pc\<close> and the globals; the
  diagnostic \<open>print\<close> of a recorded label is left out.  Nothing in the loop can raise,
  so the pass has no error value.\<close>

definition first_pass_line :: "string \<Rightarrow> int \<times> state \<Rightarrow> int \<times> state" where
  "first_pass_line line = (\<lambda>(pc, st).
     let stripped = takeWhile (\<lambda>c. c \<noteq> CHR ''#'') (str_strip line) in
     if stripped = [] then (pc, st)
     else if CHR '':'' \<in> set stripped then
       let label = takeWhile (\<lambda>c. c \<noteq> CHR '':'') stripped;
           rest = tl (dropWhile (\<lambda>c. c \<noteq> CHR '':'') stripped);
           st' = st\<lparr>symbol_table := (symbol_table st)(str_strip label \<mapsto> pc AND NOT 3)\<rparr>
       in if str_strip rest \<noteq> [] then (pc + 4, st') else (pc, st')
     else (pc + 4, st))"

fun first_pass_loop :: "string list \<Rightarrow> int \<times> state \<Rightarrow> int \<times> state" where
  "first_pass_loop [] s = s"
| "first_pass_loop (line # lines) s = first_pass_loop lines (first_pass_line line s)"

definition first_pass :: "string list \<Rightarrow> state \<Rightarrow> state" where
  "first_pass lines st = snd (first_pass_loop lines (0, st))"

section \<open>Pass 2: \<open>format_binary\<close> and \<open>assemble_instruction\<close>\<close>

definition fmt :: "string option \<Rightarrow> string" where
  \<comment> \<open>what an f-string writes for a value that is a string or \<open>None\<close>\<close>
  "fmt v = (case v of None \<Rightarrow> ''None'' | Some s \<Rightarrow> s)"

definition format_binary ::
  "string \<Rightarrow> string \<Rightarrow> string option \<Rightarrow> string option \<Rightarrow> string option \<Rightarrow> int option \<Rightarrow> string" where
  "format_binary opcode i rd rs1 rs2 imm =
     (case imm of
        Some v \<Rightarrow> opcode @ i @ fmt rd @ fmt rs1 @ py_format 2 False 18 (v AND 0x3FFFF)
      | None \<Rightarrow> opcode @ i @ fmt rd @ fmt rs1 @ fmt rs2 @ replicate 14 (CHR ''0''))"

text \<open>Every exception the encoder raises is a \<open>ValueError\<close>; the constructors tell
  the \<open>raise\<close> statements apart (\<open>InvalidLiteral\<close> is the one \<open>int\<close> raises).\<close>

datatype error =
    UnknownInstruction string
  | InvalidSyntax string string
  | MissingComparison string
  | InvalidInstructionFormat string
  | InvalidLiteral string

type_synonym result = "(error + string option) \<times> state"

definition reg :: "string \<Rightarrow> string option" where
  \<comment> \<open>\<open>REGISTERS.get(tok.upper())\<close>\<close>
  "reg tok = REGISTERS (str_upper tok)"

definition is_imm :: "string \<Rightarrow> bool" where
  \<comment> \<open>\<open>tok.lstrip('-').isdigit()\<close>\<close>
  "is_imm tok \<longleftrightarrow> str_isdigit (lstrip_minus tok)"

definition tokens :: "string \<Rightarrow> string list" where
  \<comment> \<open>\<open>line.replace(",", "").split()\<close>\<close>
  "tokens line = str_split (filter (\<lambda>c. c \<noteq> CHR '','') line)"

definition instr_parts :: "string \<Rightarrow> (string \<times> string list) option" where
  \<comment> \<open>the mnemonic \<open>parts[0]\<close> and the operands \<open>parts[1:]\<close> once a leading label
      token is dropped; \<open>None\<close> where the encoder returns \<open>None\<close>\<close>
  "instr_parts line =
     (case tokens line of
        [] \<Rightarrow> None
      | p # ps \<Rightarrow>
          if endswith_colon p then (case ps of [] \<Rightarrow> None | q # qs \<Rightarrow> Some (q, qs))
          else Some (p, ps))"

definition encode_alu :: "string \<Rightarrow> string \<Rightarrow> string list \<Rightarrow> state \<Rightarrow> result" where
  \<comment> \<open>lines 63-70; \<open>len(parts) == 4\<close> is three operands\<close>
  "encode_alu line opcode ops st =
     (case ops of
        [a, b, c] \<Rightarrow>
          if is_imm c then
            (case py_int 10 c of
               None \<Rightarrow> (Inl (InvalidLiteral c), st)
             | Some v \<Rightarrow>
                 (Inr (Some (format_binary opcode ''1'' (reg a) (reg b) (Some ''0000'')
                               (Some (v AND 0x3FFFF)))), st))
          else (Inr (Some (format_binary opcode ''0'' (reg a) (reg b) (reg c) None)), st)
      | _ \<Rightarrow> (Inl (InvalidInstructionFormat line), st))"

definition encode_cmp :: "string \<Rightarrow> string \<Rightarrow> string list \<Rightarrow> state \<Rightarrow> result" where
  \<comment> \<open>lines 72-81\<close>
  "encode_cmp line opcode ops st =
     (case ops of
        [a, b] \<Rightarrow>
          if is_imm b then
            (case py_int 10 b of
               None \<Rightarrow> (Inl (InvalidLiteral b), st)
             | Some v \<Rightarrow>
                 (let imm = v AND 0x3FFFF in
                  (Inr (Some (format_binary opcode ''1'' (Some ''0000'') (reg a) (Some ''0000'')
                                (Some imm))),
                   st\<lparr>last_cmp := Some (reg a, Some (py_str imm))\<rparr>)))
          else (Inr (Some (format_binary opcode ''0'' (Some ''0000'') (reg a) (reg b) None)),
                st\<lparr>last_cmp := Some (reg a, reg b)\<rparr>)
      | _ \<Rightarrow> (Inl (InvalidInstructionFormat line), st))"

definition encode_unary :: "string \<Rightarrow> string \<Rightarrow> string list \<Rightarrow> state \<Rightarrow> result" where
  \<comment> \<open>lines 83-90, \<open>NOT\<close> and \<open>MOV\<close>\<close>
  "encode_unary line opcode ops st =
     (case ops of
        [a, b] \<Rightarrow>
          if is_imm b then
            (case py_int 10 b of
               None \<Rightarrow> (Inl (InvalidLiteral b), st)
             | Some v \<Rightarrow>
                 (Inr (Some (format_binary opcode ''1'' (reg a) (Some ''0000'') (Some ''0000'')
                               (Some (v AND 0x3FFFF)))), st))
          else (Inr (Some (format_binary opcode ''0'' (reg a) (Some ''0000'') (reg b) None)), st)
      | _ \<Rightarrow> (Inl (InvalidInstructionFormat line), st))"

definition encode_wide :: "string \<Rightarrow> string \<Rightarrow> string \<Rightarrow> string list \<Rightarrow> state \<Rightarrow> result" where
  \<comment> \<open>lines 92-111, \<open>MOVU\<close> and \<open>MOVH\<close>\<close>
  "encode_wide line inst opcode ops st =
     (case ops of
        [a, b] \<Rightarrow>
          (let imm_str = str_strip b in
           case (if startswith_0x imm_str then py_int 16 imm_str else py_int 10 imm_str) of
             None \<Rightarrow> (Inl (InvalidLiteral imm_str), st)
           | Some imm \<Rightarrow>
               if inst = ''MOVU'' then
                 (Inr (Some (format_binary opcode ''1'' (reg a) (Some ''0000'') (Some ''0000'')
                               (Some (imm AND 0xFFFF)))), st)
               else
                 (Inr (Some (format_binary opcode ''1'' (reg a) (Some ''0000'') (Some ''0000'')
                               (Some (push_bit 16 imm AND 0x3FFFF)))), st))
      | _ \<Rightarrow> (Inl (InvalidInstructionFormat line), st))"

definition branch_word :: "string \<Rightarrow> string \<Rightarrow> int \<Rightarrow> state \<Rightarrow> string" where
  \<comment> \<open>lines 121-126 and 130-133\<close>
  "branch_word opcode lbl pc st =
     (let target_address = (case symbol_table st lbl of None \<Rightarrow> 0 | Some a \<Rightarrow> a);
          offset = target_address - (pc + 4)
      in opcode @ py_format 2 False 27 (offset AND 0x7FFFFFF))"

definition encode_cond_branch ::
  "string \<Rightarrow> string \<Rightarrow> string \<Rightarrow> string list \<Rightarrow> int \<Rightarrow> state \<Rightarrow> result" where
  \<comment> \<open>lines 114-126, \<open>BEQ\<close> and \<open>BGT\<close>\<close>
  "encode_cond_branch line inst opcode ops pc st =
     (case ops of
        [lbl] \<Rightarrow>
          if last_cmp st = None then (Inl (MissingComparison inst), st)
          else (Inr (Some (branch_word opcode lbl pc st)), st)
      | _ \<Rightarrow> (Inl (InvalidSyntax inst line), st))"

definition encode_jump :: "string \<Rightarrow> string \<Rightarrow> string list \<Rightarrow> int \<Rightarrow> state \<Rightarrow> result" where
  \<comment> \<open>lines 128-133, \<open>B\<close> and \<open>CALL\<close>\<close>
  "encode_jump line opcode ops pc st =
     (case ops of
        [lbl] \<Rightarrow> (Inr (Some (branch_word opcode lbl pc st)), st)
      | _ \<Rightarrow> (Inl (InvalidInstructionFormat line), st))"

text \<open>The mnemonic lists of the \<open>if\<close>/\<open>elif\<close> chain, in the order of the source.\<close>

definition alu_mnemonics :: "string list" where
  "alu_mnemonics = [''ADD'', ''SUB'', ''MUL'', ''DIV'', ''LSL'', ''LSR'', ''ASR'', ''AND'',
                    ''OR'', ''MOD'', ''LD'', ''ST'']"

definition unary_mnemonics :: "string list" where
  "unary_mnemonics = [''NOT'', ''MOV'']"

definition wide_mnemonics :: "string list" where
  "wide_mnemonics = [''MOVU'', ''MOVH'']"

definition cond_branch_mnemonics :: "string list" where
  "cond_branch_mnemonics = [''BEQ'', ''BGT'']"

definition jump_mnemonics :: "string list" where
  "jump_mnemonics = [''B'', ''CALL'']"

definition nullary_mnemonics :: "string list" where
  "nullary_mnemonics = [''RET'', ''NOP'', ''HLT'', ''END'']"

definition encode :: "string \<Rightarrow> string \<Rightarrow> string list \<Rightarrow> int \<Rightarrow> state \<Rightarrow> result" where
  \<comment> \<open>lines 58-138: the dispatch on the mnemonic\<close>
  "encode line inst ops pc st =
     (case OPCODES inst of
        None \<Rightarrow> (Inl (UnknownInstruction inst), st)
      | Some opcode \<Rightarrow>
          if inst \<in> set alu_mnemonics then encode_alu line opcode ops st
          else if inst = ''CMP'' then encode_cmp line opcode ops st
          else if inst \<in> set unary_mnemonics then encode_unary line opcode ops st
          else if inst \<in> set wide_mnemonics then encode_wide line inst opcode ops st
          else if inst \<in> set cond_branch_mnemonics
          then encode_cond_branch line inst opcode ops pc st
          else if inst \<in> set jump_mnemonics then encode_jump line opcode ops pc st
          else if inst \<in> set nullary_mnemonics
          then (Inr (Some (opcode @ ''000000000000000000000000000'')), st)
          else (Inl (InvalidInstructionFormat line), st))"

definition assemble_instruction :: "string \<Rightarrow> int \<Rightarrow> state \<Rightarrow> result" where
  "assemble_instruction line pc st =
     (case instr_parts line of
        None \<Rightarrow> (Inr None, st)
      | Some (inst, ops) \<Rightarrow> encode line inst ops pc st)"

section \<open>The driver: \<open>assemble_file\<close>\<close>

text \<open>
  The loop of \<open>assemble_file\<close> over the lines, after the first pass.  The run's
  outcome: the error that ended it (if any; the driver prints it and exits), the
  lines written to the binary and to the hex file, the final program counter and the
  state left behind.
  A binary line is written before its hex line is computed, and \<open>int(binary_code, 2)\<close>
  raises the same \<open>ValueError\<close> the driver catches.
\<close>

type_synonym outcome = "error option \<times> string list \<times> string list \<times> int \<times> state"

fun second_pass :: "string list \<Rightarrow> int \<Rightarrow> state \<Rightarrow> string list \<Rightarrow> string list \<Rightarrow> outcome" where
  "second_pass [] pc st bins hexs = (None, bins, hexs, pc, st)"
| "second_pass (line # lines) pc st bins hexs =
     (case assemble_instruction line pc st of
        (Inl e, st') \<Rightarrow> (Some e, bins, hexs, pc, st')
      | (Inr None, st') \<Rightarrow> second_pass lines pc st' bins hexs
      | (Inr (Some binary_code), st') \<Rightarrow>
          if binary_code = [] then second_pass lines pc st' bins hexs
          else (case py_int 2 binary_code of
                  None \<Rightarrow> (Some (InvalidLiteral binary_code), bins @ [binary_code], hexs, pc, st')
                | Some n \<Rightarrow>
                    second_pass lines (pc + 4) st' (bins @ [binary_code])
                      (hexs @ [py_format 16 True 8 n])))"

definition assemble_file :: "string list \<Rightarrow> state \<Rightarrow> outcome" where
  "assemble_file lines st = second_pass lines 0 (first_pass lines st) [] []"

section \<open>Notions the properties are stated with\<close>

text \<open>The number a string of binary digits denotes, most significant digit first.\<close>

definition bit_value :: "char \<Rightarrow> int" where
  "bit_value c = (if c = CHR ''1'' then 1 else 0)"

definition bits_value :: "string \<Rightarrow> int" where
  "bits_value s = foldl (\<lambda>a c. 2 * a + bit_value c) 0 s"

definition is_bits :: "string \<Rightarrow> bool" where
  "is_bits s = list_all (\<lambda>c. c = CHR ''0'' \<or> c = CHR ''1'') s"

text \<open>The number a string of upper-case hexadecimal digits denotes.\<close>

definition hex_digit_value :: "char \<Rightarrow> int" where
  "hex_digit_value c = int (length (takeWhile (\<lambda>d. d \<noteq> c) ''0123456789ABCDEF''))"

definition hex_value :: "string \<Rightarrow> int" where
  "hex_value s = foldl (\<lambda>a c. 16 * a + hex_digit_value c) 0 s"

definition is_upper_hex :: "string \<Rightarrow> bool" where
  "is_upper_hex s = list_all (\<lambda>c. c \<in> set ''0123456789ABCDEF'') s"

text \<open>How the first pass reads a line: the text left of the first \<open>#\<close>, the label
  it defines, and whether it gives the line an address of its own.\<close>

definition strip_comment :: "string \<Rightarrow> string" where
  "strip_comment line = takeWhile (\<lambda>c. c \<noteq> CHR ''#'') (str_strip line)"

definition label_of :: "string \<Rightarrow> string option" where
  "label_of line =
     (let s = strip_comment line in
      if CHR '':'' \<in> set s then Some (str_strip (takeWhile (\<lambda>c. c \<noteq> CHR '':'') s)) else None)"

definition counted :: "string \<Rightarrow> bool" where
  "counted line =
     (let s = strip_comment line in
      if CHR '':'' \<in> set s then str_strip (tl (dropWhile (\<lambda>c. c \<noteq> CHR '':'') s)) \<noteq> []
      else s \<noteq> [])"

text \<open>The mnemonic the encoder reads on a line, if the line has an instruction.\<close>

definition mnemonic :: "string \<Rightarrow> string option" where
  "mnemonic line = map_option fst (instr_parts line)"

text \<open>The characters an encoded word can consist of, and a four-character field of it.\<close>

definition word_char :: "char \<Rightarrow> bool" where
  "word_char c \<longleftrightarrow> c \<in> set ''01None''"

definition field4 :: "string option \<Rightarrow> bool" where
  "field4 r \<longleftrightarrow> length (fmt r) = 4 \<and> list_all word_char (fmt r)"

definition word_shape :: "string \<Rightarrow> bool" where
  "word_shape w \<longleftrightarrow> length w = 32 \<and> list_all word_char w"

text \<open>The components of a run's outcome.\<close>

definition run_error :: "outcome \<Rightarrow> error option" where
  "run_error out = (case out of (e, bins, hexs, pc, st) \<Rightarrow> e)"

definition bin_lines :: "outcome \<Rightarrow> string list" where
  "bin_lines out = (case out of (e, bins, hexs, pc, st) \<Rightarrow> bins)"

definition hex_lines :: "outcome \<Rightarrow> string list" where
  "hex_lines out = (case out of (e, bins, hexs, pc, st) \<Rightarrow> hexs)"

definition final_pc :: "outcome \<Rightarrow> int" where
  "final_pc out = (case out of (e, bins, hexs, pc, st) \<Rightarrow> pc)"

definition final_state :: "outcome \<Rightarrow> state" where
  "final_state out = (case out of (e, bins, hexs, pc, st) \<Rightarrow> st)"

text \<open>A hex line that is the eight-digit upper-case hexadecimal form of a binary line.\<close>

definition hex_of_bin :: "string \<Rightarrow> string \<Rightarrow> bool" where
  "hex_of_bin b h \<longleftrightarrow>
     length b = 32 \<and> is_bits b \<and> h = py_format 16 True 8 (bits_value b) \<and>
     length h = 8 \<and> is_upper_hex h \<and> hex_value h = bits_value b"

text \<open>Whether the encoder finds an instruction on a line (and so returns a word or
  raises), rather than returning \<open>None\<close>.\<close>

definition has_instruction :: "string \<Rightarrow> bool" where
  "has_instruction line \<longleftrightarrow> instr_parts line \<noteq> None"

text \<open>Two calls of the encoder that both raise or both return the same value, and that
  leave the same state.\<close>

definition same_encoding :: "result \<Rightarrow> result \<Rightarrow> bool" where
  "same_encoding r1 r2 \<longleftrightarrow>
     snd r1 = snd r2 \<and>
     (case fst r1 of
        Inl e1 \<Rightarrow> (case fst r2 of Inl e2 \<Rightarrow> True | Inr y \<Rightarrow> False)
      | Inr x \<Rightarrow> fst r2 = Inr x)"

section \<open>Digit strings\<close>

lemma no_digit_limit_base2: "\<not> digit_limit_exceeded 2 s"
  by (simp add: digit_limit_exceeded_def)

lemma no_digit_limit_base16: "\<not> digit_limit_exceeded 16 s"
  by (simp add: digit_limit_exceeded_def)

lemma int_div_less_bound: "(n::int) < k * b \<Longrightarrow> 0 < b \<Longrightarrow> n div b < k"
proof (rule ccontr)
  assume a: "n < k * b" "0 < b" "\<not> n div b < k"
  have "b * (n div b) \<le> n"
    using mult_div_mod_eq [of b n] pos_mod_sign [of b n] a(2) by linarith
  moreover have "k * b \<le> (n div b) * b"
    using a by (intro mult_right_mono) auto
  ultimately show False using a(1) by (simp add: mult.commute)
qed

lemma digits_length:
  "0 \<le> n \<Longrightarrow> 2 \<le> b \<Longrightarrow> 0 < w \<Longrightarrow> n < b ^ w \<Longrightarrow> length (digits b up n) \<le> w"
proof (induction b up n arbitrary: w rule: digits.induct)
  case (1 b up n)
  show ?case
  proof (cases "n < b")
    case True
    then show ?thesis using "1.prems" by (simp add: digits.simps [of b up n])
  next
    case False
    with "1.prems" have w2: "1 < w"
      by (cases "w = 1") auto
    then obtain v where v: "w = Suc v" "0 < v"
      by (cases w) auto
    have "n div b < b ^ v"
      using "1.prems" v by (intro int_div_less_bound) (auto simp: mult.commute)
    moreover have "0 \<le> n div b" using "1.prems" by (simp add: pos_imp_zdiv_nonneg_iff)
    ultimately have "length (digits b up (n div b)) \<le> v"
      using "1.IH" [of v] False "1.prems" v by simp
    then show ?thesis using False "1.prems" v by (simp add: digits.simps [of b up n])
  qed
qed

lemma digits_all:
  "0 \<le> n \<Longrightarrow> 2 \<le> b \<Longrightarrow> \<forall>d. 0 \<le> d \<and> d < b \<longrightarrow> P (digit_char up d)
     \<Longrightarrow> list_all P (digits b up n)"
proof (induction b up n rule: digits.induct)
  case (1 b up n)
  show ?case
  proof (cases "n < b")
    case True
    then show ?thesis using "1.prems" by (simp add: digits.simps [of b up n])
  next
    case False
    have "0 \<le> n div b" using "1.prems" by (simp add: pos_imp_zdiv_nonneg_iff)
    then have "list_all P (digits b up (n div b))"
      using "1.IH" False "1.prems" by simp
    moreover have "P (digit_char up (n mod b))" using "1.prems" by simp
    ultimately show ?thesis using False "1.prems" by (simp add: digits.simps [of b up n])
  qed
qed

lemma digits_value:
  "0 \<le> n \<Longrightarrow> 2 \<le> b \<Longrightarrow> \<forall>d. 0 \<le> d \<and> d < b \<longrightarrow> dec (digit_char up d) = d
     \<Longrightarrow> foldl (\<lambda>a c. b * a + dec c) 0 (digits b up n) = n"
proof (induction b up n rule: digits.induct)
  case (1 b up n)
  show ?case
  proof (cases "n < b")
    case True
    then show ?thesis using "1.prems" by (simp add: digits.simps [of b up n])
  next
    case False
    have "0 \<le> n div b" using "1.prems" by (simp add: pos_imp_zdiv_nonneg_iff)
    then have "foldl (\<lambda>a c. b * a + dec c) 0 (digits b up (n div b)) = n div b"
      using "1.IH" False "1.prems" by simp
    moreover have "dec (digit_char up (n mod b)) = n mod b" using "1.prems" by simp
    ultimately show ?thesis using False "1.prems" by (simp add: digits.simps [of b up n])
  qed
qed

lemma zfill_length: "length s \<le> w \<Longrightarrow> length (zfill w s) = w"
  by (simp add: zfill_def)

lemma list_all_zfill: "P (CHR ''0'') \<Longrightarrow> list_all P s \<Longrightarrow> list_all P (zfill w s)"
  by (auto simp: zfill_def list_all_iff)

lemma foldl_replicate_zero:
  "dec (CHR ''0'') = 0 \<Longrightarrow> foldl (\<lambda>a c. b * a + dec c) (0::int) (replicate k (CHR ''0'')) = 0"
  by (induction k) auto

lemma foldl_zfill:
  "dec (CHR ''0'') = 0 \<Longrightarrow>
   foldl (\<lambda>a c. b * a + dec c) (0::int) (zfill w s) = foldl (\<lambda>a c. b * a + dec c) 0 s"
  by (simp add: zfill_def foldl_replicate_zero)

lemma bit_digit_char:
  assumes "0 \<le> d" "d < 2"
  shows "digit_char up d = CHR ''0'' \<or> digit_char up d = CHR ''1''"
    and "bit_value (digit_char up d) = d"
proof -
  have "d = 0 \<or> d = 1" using assms by arith
  then show "digit_char up d = CHR ''0'' \<or> digit_char up d = CHR ''1''"
    and "bit_value (digit_char up d) = d"
    by (auto simp: digit_char_def bit_value_def char_of_eq_iff)
qed

lemma py_format_bits:
  assumes "0 \<le> n" "n < 2 ^ w" "0 < w"
  shows "length (py_format 2 False w n) = w"
    and "is_bits (py_format 2 False w n)"
    and "bits_value (py_format 2 False w n) = n"
proof -
  have len: "length (digits 2 False n) \<le> w"
    using assms by (intro digits_length) auto
  show "length (py_format 2 False w n) = w"
    using assms len by (simp add: py_format_def zfill_length)
  have "list_all (\<lambda>c. c = CHR ''0'' \<or> c = CHR ''1'') (digits 2 False n)"
    using assms(1) bit_digit_char(1) by (intro digits_all) auto
  then show "is_bits (py_format 2 False w n)"
    using assms(1) by (simp add: py_format_def is_bits_def list_all_zfill)
  have "foldl (\<lambda>a c. 2 * a + bit_value c) 0 (digits 2 False n) = n"
    using assms(1) bit_digit_char(2) by (intro digits_value) auto
  then show "bits_value (py_format 2 False w n) = n"
    using assms(1) foldl_zfill [of bit_value 2 w]
    by (simp add: py_format_def bits_value_def bit_value_def)
qed

lemma digit_char_hex_table:
  "map (digit_char True) [0, 1, 2, 3, 4, 5, 6, 7, 8, 9, 10, 11, 12, 13, 14, 15] = ''0123456789ABCDEF''"
  by (simp add: digit_char_def char_of_eq_iff)

lemma hex_digit_char:
  assumes "0 \<le> d" "d < 16"
  shows "digit_char True d \<in> set ''0123456789ABCDEF''"
    and "hex_digit_value (digit_char True d) = d"
proof -
  have d: "d = 0 \<or> d = 1 \<or> d = 2 \<or> d = 3 \<or> d = 4 \<or> d = 5 \<or> d = 6 \<or> d = 7 \<or> d = 8 \<or> d = 9
          \<or> d = 10 \<or> d = 11 \<or> d = 12 \<or> d = 13 \<or> d = 14 \<or> d = 15"
    using assms by arith
  then show "digit_char True d \<in> set ''0123456789ABCDEF''"
    using digit_char_hex_table by (elim disjE) simp_all
  from d show "hex_digit_value (digit_char True d) = d"
    using digit_char_hex_table by (elim disjE) (simp_all add: hex_digit_value_def)
qed

lemma digits16_all:
  assumes "0 \<le> (n::int)"
  shows "list_all (\<lambda>c. c \<in> set ''0123456789ABCDEF'') (digits 16 True n)"
proof (rule digits_all)
  show "0 \<le> n" by fact
  show "2 \<le> (16::int)" by simp
  show "\<forall>d. 0 \<le> d \<and> d < 16 \<longrightarrow> digit_char True d \<in> set ''0123456789ABCDEF''"
    using hex_digit_char(1) by blast
qed

lemma digits16_value:
  assumes "0 \<le> (n::int)"
  shows "foldl (\<lambda>a c. 16 * a + hex_digit_value c) 0 (digits 16 True n) = n"
proof (rule digits_value)
  show "0 \<le> n" by fact
  show "2 \<le> (16::int)" by simp
  show "\<forall>d. 0 \<le> d \<and> d < 16 \<longrightarrow> hex_digit_value (digit_char True d) = d"
    using hex_digit_char(2) by blast
qed

lemma py_format_hex:
  assumes "0 \<le> n" "n < 2 ^ 32"
  shows "length (py_format 16 True 8 n) = 8"
    and "is_upper_hex (py_format 16 True 8 n)"
    and "hex_value (py_format 16 True 8 n) = n"
proof -
  have len: "length (digits 16 True n) \<le> 8"
    using assms by (intro digits_length) auto
  have fmt: "py_format 16 True 8 n = zfill 8 (digits 16 True n)"
    using assms(1) by (simp add: py_format_def)
  show "length (py_format 16 True 8 n) = 8"
    using len by (simp add: fmt zfill_length)
  have "CHR ''0'' \<in> set ''0123456789ABCDEF''"
    by simp
  then show "is_upper_hex (py_format 16 True 8 n)"
    unfolding fmt is_upper_hex_def using digits16_all [OF assms(1)]
    by (rule list_all_zfill)
  have "hex_digit_value (CHR ''0'') = 0"
    by (simp add: hex_digit_value_def)
  then show "hex_value (py_format 16 True 8 n) = n"
    unfolding fmt hex_value_def using digits16_value [OF assms(1)]
    by (simp only: foldl_zfill)
qed

section \<open>The shape of an encoded word\<close>

lemma and_mask18: "(v::int) AND 0x3FFFF = v mod 2 ^ 18"
proof -
  have "(v::int) AND mask 18 = v mod 2 ^ 18"
    by (simp only: take_bit_eq_mask [symmetric] take_bit_eq_mod)
  then show ?thesis by (simp add: mask_eq_exp_minus_1)
qed

lemma and_mask27: "(v::int) AND 0x7FFFFFF = v mod 2 ^ 27"
proof -
  have "(v::int) AND mask 27 = v mod 2 ^ 27"
    by (simp only: take_bit_eq_mask [symmetric] take_bit_eq_mod)
  then show ?thesis by (simp add: mask_eq_exp_minus_1)
qed

lemma OPCODES_cases:
  "OPCODES inst = Some op \<Longrightarrow>
   (inst, op) \<in> set
     [(''ADD'', ''00000''), (''SUB'', ''00001''), (''MUL'', ''00010''), (''DIV'', ''00011''),
      (''MOD'', ''00100''), (''CMP'', ''00101''), (''AND'', ''00110''), (''OR'', ''00111''),
      (''NOT'', ''01000''), (''MOV'', ''01001''), (''MOVU'', ''01001''), (''MOVH'', ''01001''),
      (''LSL'', ''01010''), (''LSR'', ''01011''), (''ASR'', ''01100''), (''NOP'', ''01101''),
      (''LD'', ''01110''), (''ST'', ''01111''), (''BEQ'', ''10000''), (''BGT'', ''10001''),
      (''B'', ''10010''), (''CALL'', ''10011''), (''RET'', ''10100''), (''END'', ''11111''),
      (''HLT'', ''11111'')]"
  unfolding OPCODES_def by (rule map_of_SomeD)

lemma OPCODES_shape:
  assumes "OPCODES inst = Some op"
  shows "length op = 5" and "is_bits op"
  using OPCODES_cases [OF assms] by (auto simp: is_bits_def)

lemma REGISTERS_cases:
  "REGISTERS r = Some code \<Longrightarrow>
   (r, code) \<in> set
     [(''R0'', ''0000''), (''R1'', ''0001''), (''R2'', ''0010''), (''R3'', ''0011''),
      (''R4'', ''0100''), (''R5'', ''0101''), (''R6'', ''0110''), (''R7'', ''0111''),
      (''R8'', ''1000''), (''R9'', ''1001''), (''R10'', ''1010''), (''R11'', ''1011''),
      (''R12'', ''1100''), (''R13'', ''1101''), (''R14'', ''1110''), (''R15'', ''1111'')]"
  unfolding REGISTERS_def by (rule map_of_SomeD)

lemma REGISTERS_shape:
  assumes "REGISTERS r = Some code"
  shows "length code = 4" and "is_bits code"
  using REGISTERS_cases [OF assms] by (auto simp: is_bits_def)

lemma is_bits_word_char: "is_bits s \<Longrightarrow> list_all word_char s"
  by (auto simp: is_bits_def word_char_def list_all_iff)

lemma field4_reg: "field4 (reg t)"
proof (cases "reg t")
  case None
  then show ?thesis by (simp add: field4_def fmt_def word_char_def)
next
  case (Some code)
  then have "length code = 4" "is_bits code"
    by (auto simp: reg_def dest: REGISTERS_shape)
  then show ?thesis using Some by (simp add: field4_def fmt_def is_bits_word_char)
qed

lemma field4_zero: "field4 (Some ''0000'')"
  by (simp add: field4_def fmt_def word_char_def)

lemma format_binary_shape:
  assumes "length opcode = 5" "is_bits opcode" "i = ''0'' \<or> i = ''1''"
    and "field4 rd" "field4 rs1" "field4 rs2"
  shows "length (format_binary opcode i rd rs1 rs2 imm) = 32"
    and "list_all word_char (format_binary opcode i rd rs1 rs2 imm)"
proof -
  have i: "length i = 1" "list_all word_char i"
    using assms(3) by (auto simp: word_char_def)
  have op: "list_all word_char opcode"
    using assms(2) by (rule is_bits_word_char)
  have z: "list_all word_char (replicate 14 (CHR ''0''))"
    by (simp add: list_all_iff word_char_def)
  have imm: "length (py_format 2 False 18 (v AND 0x3FFFF)) = 18"
    "list_all word_char (py_format 2 False 18 (v AND 0x3FFFF))" for v :: int
    by (simp_all add: and_mask18 py_format_bits is_bits_word_char)
  show "length (format_binary opcode i rd rs1 rs2 imm) = 32"
    using assms(1,4,5,6) i(1) imm(1) by (simp add: format_binary_def field4_def split: option.split)
  show "list_all word_char (format_binary opcode i rd rs1 rs2 imm)"
    using assms(4,5,6) i(2) op z imm(2)
    by (simp add: format_binary_def field4_def split: option.split)
qed

lemma branch_word_shape:
  assumes "length opcode = 5" "is_bits opcode"
  shows "length (branch_word opcode lbl pc st) = 32"
    and "is_bits (branch_word opcode lbl pc st)"
proof -
  have "length (py_format 2 False 27 (v AND 0x7FFFFFF)) = 27"
    "is_bits (py_format 2 False 27 (v AND 0x7FFFFFF))" for v :: int
    by (simp_all add: and_mask27 py_format_bits)
  then show "length (branch_word opcode lbl pc st) = 32"
    and "is_bits (branch_word opcode lbl pc st)"
    using assms by (simp_all add: branch_word_def Let_def is_bits_def)
qed

section \<open>What one call of the encoder does\<close>

lemma format_binary_word_shape:
  assumes "length opcode = 5" "is_bits opcode" "i = ''0'' \<or> i = ''1''"
    and "field4 rd" "field4 rs1" "field4 rs2"
  shows "word_shape (format_binary opcode i rd rs1 rs2 imm)"
  using format_binary_shape [OF assms] by (simp add: word_shape_def)

lemma encode_alu_outcome:
  assumes "length opcode = 5" "is_bits opcode"
    and "encode_alu line opcode ops st = (r, st')"
  shows "st' = st" and "r \<noteq> Inr None" and "r = Inr (Some w) \<Longrightarrow> word_shape w"
  using assms(3) format_binary_word_shape [OF assms(1,2)] field4_reg field4_zero
  by (auto simp: encode_alu_def split: list.splits if_splits option.splits)

lemma encode_unary_outcome:
  assumes "length opcode = 5" "is_bits opcode"
    and "encode_unary line opcode ops st = (r, st')"
  shows "st' = st" and "r \<noteq> Inr None" and "r = Inr (Some w) \<Longrightarrow> word_shape w"
  using assms(3) format_binary_word_shape [OF assms(1,2)] field4_reg field4_zero
  by (auto simp: encode_unary_def split: list.splits if_splits option.splits)

lemma encode_wide_outcome:
  assumes "length opcode = 5" "is_bits opcode"
    and "encode_wide line inst opcode ops st = (r, st')"
  shows "st' = st" and "r \<noteq> Inr None" and "r = Inr (Some w) \<Longrightarrow> word_shape w"
  using assms(3) format_binary_word_shape [OF assms(1,2)] field4_reg field4_zero
  by (auto simp: encode_wide_def Let_def split: list.splits if_splits option.splits)

lemma encode_cmp_outcome:
  assumes "length opcode = 5" "is_bits opcode"
    and "encode_cmp line opcode ops st = (r, st')"
  shows "symbol_table st' = symbol_table st"
    and "r = Inl e \<Longrightarrow> st' = st"
    and "r = Inr x \<Longrightarrow> last_cmp st' \<noteq> None"
    and "r \<noteq> Inr None" and "r = Inr (Some w) \<Longrightarrow> word_shape w"
  using assms(3) format_binary_word_shape [OF assms(1,2)] field4_reg field4_zero
  by (auto simp: encode_cmp_def Let_def split: list.splits if_splits option.splits)

lemma branch_word_word_shape:
  assumes "length opcode = 5" "is_bits opcode"
  shows "word_shape (branch_word opcode lbl pc st)"
  using branch_word_shape [OF assms] by (simp add: word_shape_def is_bits_word_char)

lemma encode_cond_branch_outcome:
  assumes "length opcode = 5" "is_bits opcode"
    and "encode_cond_branch line inst opcode ops pc st = (r, st')"
  shows "st' = st" and "r \<noteq> Inr None" and "r = Inr (Some w) \<Longrightarrow> word_shape w"
  using assms(3) branch_word_word_shape [OF assms(1,2)]
  by (auto simp: encode_cond_branch_def split: list.splits if_splits)

lemma encode_jump_outcome:
  assumes "length opcode = 5" "is_bits opcode"
    and "encode_jump line opcode ops pc st = (r, st')"
  shows "st' = st" and "r \<noteq> Inr None" and "r = Inr (Some w) \<Longrightarrow> word_shape w"
  using assms(3) branch_word_word_shape [OF assms(1,2)]
  by (auto simp: encode_jump_def split: list.splits)

lemma nullary_word_shape:
  assumes "length opcode = 5" "is_bits opcode"
  shows "word_shape (opcode @ ''000000000000000000000000000'')"
  using assms by (simp add: word_shape_def is_bits_word_char word_char_def)

lemma CMP_not_alu: "''CMP'' \<notin> set alu_mnemonics"
  by (simp add: alu_mnemonics_def)

lemma encode_outcome:
  assumes "encode line inst ops pc st = (r, st')"
  shows "symbol_table st' = symbol_table st"
    and "r = Inl e \<Longrightarrow> st' = st"
    and "inst \<noteq> ''CMP'' \<Longrightarrow> st' = st"
    and "inst = ''CMP'' \<Longrightarrow> r = Inr x \<Longrightarrow> last_cmp st' \<noteq> None"
    and "r \<noteq> Inr None"
    and "r = Inr (Some w) \<Longrightarrow> word_shape w"
proof -
  have all: "symbol_table st' = symbol_table st \<and> (r = Inl e \<longrightarrow> st' = st)
      \<and> (inst \<noteq> ''CMP'' \<longrightarrow> st' = st) \<and> (inst = ''CMP'' \<longrightarrow> r = Inr x \<longrightarrow> last_cmp st' \<noteq> None)
      \<and> r \<noteq> Inr None \<and> (r = Inr (Some w) \<longrightarrow> word_shape w)"
  proof (cases "OPCODES inst")
    case None
    then show ?thesis using assms by (auto simp: encode_def)
  next
    case (Some opcode)
    note op = OPCODES_shape [OF Some]
    consider (alu) "inst \<in> set alu_mnemonics"
      | (cmp) "inst \<notin> set alu_mnemonics" "inst = ''CMP''"
      | (unary) "inst \<notin> set alu_mnemonics" "inst \<noteq> ''CMP''" "inst \<in> set unary_mnemonics"
      | (wide) "inst \<notin> set alu_mnemonics" "inst \<noteq> ''CMP''" "inst \<notin> set unary_mnemonics"
          "inst \<in> set wide_mnemonics"
      | (cond) "inst \<notin> set alu_mnemonics" "inst \<noteq> ''CMP''" "inst \<notin> set unary_mnemonics"
          "inst \<notin> set wide_mnemonics" "inst \<in> set cond_branch_mnemonics"
      | (jump) "inst \<notin> set alu_mnemonics" "inst \<noteq> ''CMP''" "inst \<notin> set unary_mnemonics"
          "inst \<notin> set wide_mnemonics" "inst \<notin> set cond_branch_mnemonics"
          "inst \<in> set jump_mnemonics"
      | (nullary) "inst \<notin> set alu_mnemonics" "inst \<noteq> ''CMP''" "inst \<notin> set unary_mnemonics"
          "inst \<notin> set wide_mnemonics" "inst \<notin> set cond_branch_mnemonics"
          "inst \<notin> set jump_mnemonics" "inst \<in> set nullary_mnemonics"
      | (other) "inst \<notin> set alu_mnemonics" "inst \<noteq> ''CMP''" "inst \<notin> set unary_mnemonics"
          "inst \<notin> set wide_mnemonics" "inst \<notin> set cond_branch_mnemonics"
          "inst \<notin> set jump_mnemonics" "inst \<notin> set nullary_mnemonics"
      by blast
    then show ?thesis
    proof cases
      case alu
      then have "encode_alu line opcode ops st = (r, st')"
        using assms Some by (simp add: encode_def)
      from encode_alu_outcome [OF op this] alu CMP_not_alu show ?thesis by auto
    next
      case cmp
      then have "encode_cmp line opcode ops st = (r, st')"
        using assms Some by (simp add: encode_def)
      from encode_cmp_outcome [OF op this] cmp show ?thesis by auto
    next
      case unary
      then have "encode_unary line opcode ops st = (r, st')"
        using assms Some by (simp add: encode_def)
      from encode_unary_outcome [OF op this] unary show ?thesis by auto
    next
      case wide
      then have "encode_wide line inst opcode ops st = (r, st')"
        using assms Some by (simp add: encode_def)
      from encode_wide_outcome [OF op this] wide show ?thesis by auto
    next
      case cond
      then have "encode_cond_branch line inst opcode ops pc st = (r, st')"
        using assms Some by (simp add: encode_def)
      from encode_cond_branch_outcome [OF op this] cond show ?thesis by auto
    next
      case jump
      then have "encode_jump line opcode ops pc st = (r, st')"
        using assms Some by (simp add: encode_def)
      from encode_jump_outcome [OF op this] jump show ?thesis by auto
    next
      case nullary
      then have "r = Inr (Some (opcode @ ''000000000000000000000000000''))" "st' = st"
        using assms Some by (auto simp: encode_def)
      then show ?thesis using nullary nullary_word_shape [OF op] by auto
    next
      case other
      then have "r = Inl (InvalidInstructionFormat line)" "st' = st"
        using assms Some by (auto simp: encode_def)
      then show ?thesis by auto
    qed
  qed
  then show "symbol_table st' = symbol_table st"
    and "r = Inl e \<Longrightarrow> st' = st"
    and "inst \<noteq> ''CMP'' \<Longrightarrow> st' = st"
    and "inst = ''CMP'' \<Longrightarrow> r = Inr x \<Longrightarrow> last_cmp st' \<noteq> None"
    and "r \<noteq> Inr None"
    and "r = Inr (Some w) \<Longrightarrow> word_shape w"
    by blast+
qed

lemma assemble_instruction_outcome:
  assumes "assemble_instruction line pc st = (r, st')"
  shows "symbol_table st' = symbol_table st"
    and "r = Inl e \<Longrightarrow> st' = st"
    and "mnemonic line \<noteq> Some ''CMP'' \<Longrightarrow> st' = st"
    and "mnemonic line = Some ''CMP'' \<Longrightarrow> r = Inr x \<Longrightarrow> last_cmp st' \<noteq> None"
    and "r = Inr None \<longleftrightarrow> instr_parts line = None"
    and "r = Inr (Some w) \<Longrightarrow> word_shape w"
proof -
  have all: "symbol_table st' = symbol_table st \<and> (r = Inl e \<longrightarrow> st' = st)
      \<and> (mnemonic line \<noteq> Some ''CMP'' \<longrightarrow> st' = st)
      \<and> (mnemonic line = Some ''CMP'' \<longrightarrow> r = Inr x \<longrightarrow> last_cmp st' \<noteq> None)
      \<and> (r = Inr None \<longleftrightarrow> instr_parts line = None)
      \<and> (r = Inr (Some w) \<longrightarrow> word_shape w)"
  proof (cases "instr_parts line")
    case None
    then have "r = Inr None" "st' = st"
      using assms by (auto simp: assemble_instruction_def)
    then show ?thesis using None by (auto simp: mnemonic_def)
  next
    case (Some p)
    obtain inst ops where p: "p = (inst, ops)" by (cases p)
    have enc: "encode line inst ops pc st = (r, st')"
      using assms Some p by (simp add: assemble_instruction_def)
    have m: "mnemonic line = Some inst"
      using Some p by (simp add: mnemonic_def)
    note o = encode_outcome [OF enc]
    show ?thesis using o(1) o(2) o(3) o(4) [of x] o(5) o(6) m Some by auto
  qed
  then show "symbol_table st' = symbol_table st"
    and "r = Inl e \<Longrightarrow> st' = st"
    and "mnemonic line \<noteq> Some ''CMP'' \<Longrightarrow> st' = st"
    and "mnemonic line = Some ''CMP'' \<Longrightarrow> r = Inr x \<Longrightarrow> last_cmp st' \<noteq> None"
    and "r = Inr None \<longleftrightarrow> instr_parts line = None"
    and "r = Inr (Some w) \<Longrightarrow> word_shape w"
    by blast+
qed

section \<open>The two passes\<close>

lemma first_pass_line_eq:
  "first_pass_line line (pc, st) =
     (if counted line then pc + 4 else pc,
      case label_of line of
        None \<Rightarrow> st
      | Some l \<Rightarrow> st\<lparr>symbol_table := (symbol_table st)(l \<mapsto> pc AND NOT 3)\<rparr>)"
  by (simp add: first_pass_line_def counted_def label_of_def strip_comment_def Let_def)

lemma first_pass_line_last_cmp:
  "last_cmp (snd (first_pass_line line (pc, st))) = last_cmp st"
  by (simp add: first_pass_line_eq split: option.split)

lemma first_pass_loop_last_cmp:
  "last_cmp (snd (first_pass_loop lines (pc, st))) = last_cmp st"
proof (induction lines arbitrary: pc st)
  case Nil
  show ?case by simp
next
  case (Cons line lines)
  obtain pc' st' where s: "first_pass_line line (pc, st) = (pc', st')"
    by (cases "first_pass_line line (pc, st)")
  then have "last_cmp st' = last_cmp st"
    using first_pass_line_last_cmp [of line pc st] by simp
  then show ?case using Cons.IH [of pc' st'] s by simp
qed

lemma second_pass_step:
  assumes "assemble_instruction line pc st = (r, st1)"
  shows "second_pass (line # lines) pc st bins hexs =
     (case r of
        Inl e \<Rightarrow> (Some e, bins, hexs, pc, st1)
      | Inr None \<Rightarrow> second_pass lines pc st1 bins hexs
      | Inr (Some w) \<Rightarrow>
          if w = [] then second_pass lines pc st1 bins hexs
          else (case py_int 2 w of
                  None \<Rightarrow> (Some (InvalidLiteral w), bins @ [w], hexs, pc, st1)
                | Some n \<Rightarrow>
                    second_pass lines (pc + 4) st1 (bins @ [w]) (hexs @ [py_format 16 True 8 n])))"
  using assms by (simp split: sum.split option.split)

lemma second_pass_keeps_last_cmp:
  "last_cmp st \<noteq> None \<Longrightarrow> last_cmp (final_state (second_pass lines pc st bins hexs)) \<noteq> None"
proof (induction lines arbitrary: pc st bins hexs)
  case Nil
  then show ?case by (simp add: final_state_def)
next
  case (Cons line lines)
  obtain r st1 where a: "assemble_instruction line pc st = (r, st1)"
    by (cases "assemble_instruction line pc st")
  have st1: "last_cmp st1 \<noteq> None"
  proof (cases "mnemonic line = Some ''CMP''")
    case True
    show ?thesis
    proof (cases r)
      case (Inl e)
      then show ?thesis using assemble_instruction_outcome(2) [OF a] Cons.prems by simp
    next
      case (Inr x)
      then show ?thesis using assemble_instruction_outcome(4) [OF a True] by simp
    qed
  next
    case False
    then show ?thesis using assemble_instruction_outcome(3) [OF a] Cons.prems by simp
  qed
  show ?case
    unfolding second_pass_step [OF a]
    using st1 Cons.IH [OF st1]
    by (simp add: final_state_def split: sum.split option.split)
qed

lemma second_pass_last_cmp_None_iff:
  "run_error (second_pass lines pc st bins hexs) = None \<Longrightarrow>
   last_cmp (final_state (second_pass lines pc st bins hexs)) = None \<longleftrightarrow>
     last_cmp st = None \<and> (\<forall>x\<in>set lines. mnemonic x \<noteq> Some ''CMP'')"
proof (induction lines arbitrary: pc st bins hexs)
  case Nil
  then show ?case by (simp add: final_state_def)
next
  case (Cons line lines)
  obtain r st1 where a: "assemble_instruction line pc st = (r, st1)"
    by (cases "assemble_instruction line pc st")
  from Cons.prems obtain x where r: "r = Inr x"
    unfolding second_pass_step [OF a] by (cases r) (simp_all add: run_error_def)
  obtain pc1 bins1 hexs1 where
    rest: "second_pass (line # lines) pc st bins hexs = second_pass lines pc1 st1 bins1 hexs1"
    using Cons.prems unfolding second_pass_step [OF a] r
    by (auto simp: run_error_def split: option.splits if_splits)
  have ok: "run_error (second_pass lines pc1 st1 bins1 hexs1) = None"
    using Cons.prems rest by simp
  have st1: "last_cmp st1 = None \<longleftrightarrow> last_cmp st = None \<and> mnemonic line \<noteq> Some ''CMP''"
  proof (cases "mnemonic line = Some ''CMP''")
    case True
    then show ?thesis using assemble_instruction_outcome(4) [OF a True r] by simp
  next
    case False
    then show ?thesis using assemble_instruction_outcome(3) [OF a] by simp
  qed
  show ?case
    unfolding rest using Cons.IH [OF ok] st1 by auto
qed

lemma second_pass_append:
  "second_pass (xs @ ys) pc st bins hexs =
     (let out = second_pass xs pc st bins hexs in
      if run_error out = None
      then second_pass ys (final_pc out) (final_state out) (bin_lines out) (hex_lines out)
      else out)"
proof (induction xs arbitrary: pc st bins hexs)
  case Nil
  show ?case
    by (simp add: run_error_def final_pc_def final_state_def bin_lines_def hex_lines_def)
next
  case (Cons line xs)
  obtain r st1 where a: "assemble_instruction line pc st = (r, st1)"
    by (cases "assemble_instruction line pc st")
  show ?case
    unfolding append_Cons second_pass_step [OF a]
    by (simp add: Cons.IH run_error_def split: sum.split option.split)
qed

lemma cond_branch_cases:
  "inst \<in> set cond_branch_mnemonics \<Longrightarrow> inst = ''BEQ'' \<or> inst = ''BGT''"
  by (simp add: cond_branch_mnemonics_def)

lemma jump_cases:
  "inst \<in> set jump_mnemonics \<Longrightarrow> inst = ''B'' \<or> inst = ''CALL''"
  by (simp add: jump_mnemonics_def)

lemma encode_cond_branch_one:
  assumes "inst \<in> set cond_branch_mnemonics"
  shows "\<exists>opcode. OPCODES inst = Some opcode \<and>
     encode line inst [lbl] pc st =
       (if last_cmp st = None then (Inl (MissingComparison inst), st)
        else (Inr (Some (branch_word opcode lbl pc st)), st))"
  using cond_branch_cases [OF assms]
  by (elim disjE)
    (simp_all add: encode_def OPCODES_def alu_mnemonics_def unary_mnemonics_def
      wide_mnemonics_def cond_branch_mnemonics_def encode_cond_branch_def)

lemma encode_jump_one:
  assumes "inst \<in> set jump_mnemonics"
  shows "\<exists>opcode. OPCODES inst = Some opcode \<and>
     encode line inst [lbl] pc st = (Inr (Some (branch_word opcode lbl pc st)), st)"
  using jump_cases [OF assms]
  by (elim disjE)
    (simp_all add: encode_def OPCODES_def alu_mnemonics_def unary_mnemonics_def
      wide_mnemonics_def cond_branch_mnemonics_def jump_mnemonics_def encode_jump_def)

lemma encode_cond_branch_operand_count:
  assumes "inst \<in> set cond_branch_mnemonics" "length ops \<noteq> 1"
  shows "encode line inst ops pc st = (Inl (InvalidSyntax inst line), st)"
proof -
  have c: "encode_cond_branch line i opcode ops pc st = (Inl (InvalidSyntax i line), st)"
    for opcode i
    using assms(2) by (auto simp: encode_cond_branch_def split: list.splits)
  show ?thesis
    using cond_branch_cases [OF assms(1)]
    by (elim disjE)
      (simp_all add: encode_def OPCODES_def alu_mnemonics_def unary_mnemonics_def
        wide_mnemonics_def cond_branch_mnemonics_def c)
qed

section \<open>The comparison state and the branch instructions\<close>

text \<open>
  C8.  The comparison state is never cleared: the first pass leaves it as it is, a
  call of the encoder on a set state leaves it set, a \<open>CMP\<close> that is encoded sets it,
  and therefore the second pass and the whole run end with the state set if it was
  set before or if a \<open>CMP\<close> was encoded on the way.
\<close>

theorem comparison_state_never_cleared:
  "last_cmp (first_pass lines st) = last_cmp st
   \<and> (last_cmp st \<noteq> None \<longrightarrow> last_cmp (snd (assemble_instruction line pc st)) \<noteq> None)
   \<and> (mnemonic line = Some ''CMP'' \<and> fst (assemble_instruction line pc st) = Inr x \<longrightarrow>
        last_cmp (snd (assemble_instruction line pc st)) \<noteq> None)
   \<and> (last_cmp st \<noteq> None \<longrightarrow>
        last_cmp (final_state (second_pass lines pc st bins hexs)) \<noteq> None)
   \<and> (run_error (second_pass lines pc st bins hexs) = None
        \<and> (\<exists>l\<in>set lines. mnemonic l = Some ''CMP'') \<longrightarrow>
        last_cmp (final_state (second_pass lines pc st bins hexs)) \<noteq> None)
   \<and> (last_cmp st \<noteq> None \<longrightarrow> last_cmp (final_state (assemble_file lines st)) \<noteq> None)"
proof (intro conjI impI)
  show fp: "last_cmp (first_pass lines st) = last_cmp st"
    by (simp add: first_pass_def first_pass_loop_last_cmp)
  obtain r st1 where a: "assemble_instruction line pc st = (r, st1)"
    by (cases "assemble_instruction line pc st")
  show "last_cmp (snd (assemble_instruction line pc st)) \<noteq> None" if "last_cmp st \<noteq> None"
  proof (cases "mnemonic line = Some ''CMP''")
    case True
    show ?thesis
    proof (cases r)
      case (Inl e)
      then show ?thesis using assemble_instruction_outcome(2) [OF a] that a by simp
    next
      case (Inr y)
      then show ?thesis using assemble_instruction_outcome(4) [OF a True] a by simp
    qed
  next
    case False
    then show ?thesis using assemble_instruction_outcome(3) [OF a] that a by simp
  qed
  show "last_cmp (snd (assemble_instruction line pc st)) \<noteq> None"
    if "mnemonic line = Some ''CMP'' \<and> fst (assemble_instruction line pc st) = Inr x"
    using assemble_instruction_outcome(4) [OF a, of x] that a by simp
  show "last_cmp (final_state (second_pass lines pc st bins hexs)) \<noteq> None"
    if "last_cmp st \<noteq> None"
    using that by (rule second_pass_keeps_last_cmp)
  show "last_cmp (final_state (second_pass lines pc st bins hexs)) \<noteq> None"
    if "run_error (second_pass lines pc st bins hexs) = None
        \<and> (\<exists>l\<in>set lines. mnemonic l = Some ''CMP'')"
    using that second_pass_last_cmp_None_iff [of lines pc st bins hexs] by blast
  show "last_cmp (final_state (assemble_file lines st)) \<noteq> None" if "last_cmp st \<noteq> None"
    unfolding assemble_file_def using that fp by (intro second_pass_keeps_last_cmp) simp
qed

theorem comparison_state_never_cleared_witness:
  "last_cmp (first_pass [''loop:'', ''CMP R1, 5'', ''NOP''] initial_state) = None
   \<and> last_cmp (snd (assemble_instruction ''CMP R1, 5'' 0 initial_state)) \<noteq> None
   \<and> last_cmp (snd (assemble_instruction ''NOP'' 4
        (snd (assemble_instruction ''CMP R1, 5'' 0 initial_state)))) \<noteq> None
   \<and> last_cmp (final_state (second_pass [''loop:'', ''CMP R1, 5'', ''NOP''] 0 initial_state [] []))
        \<noteq> None
   \<and> last_cmp (final_state (assemble_file [''NOP'']
        (snd (assemble_instruction ''CMP R1, 5'' 0 initial_state)))) \<noteq> None"
proof -
  let ?st = "snd (assemble_instruction ''CMP R1, 5'' 0 initial_state)"
  let ?w = "Some ''00101100000001000000000000000101''"
  have m: "mnemonic ''CMP R1, 5'' = Some ''CMP''"
    by code_simp
  have e: "fst (assemble_instruction ''CMP R1, 5'' 0 initial_state) = Inr ?w"
    by code_simp
  have ok: "run_error (second_pass [''loop:'', ''CMP R1, 5'', ''NOP''] 0 initial_state [] []) = None"
    by code_simp
  have i: "last_cmp initial_state = None"
    by (simp add: initial_state_def)
  note t1 = comparison_state_never_cleared
    [where lines = "[''loop:'', ''CMP R1, 5'', ''NOP'']" and st = initial_state
       and line = "''CMP R1, 5''" and pc = 0 and x = ?w and bins = "[]" and hexs = "[]"]
  note t2 = comparison_state_never_cleared
    [where lines = "[''NOP'']" and st = ?st and line = "''NOP''" and pc = 4 and x = None
       and bins = "[]" and hexs = "[]"]
  have s: "last_cmp ?st \<noteq> None"
    using t1 m e by blast
  show ?thesis
    using t1 t2 m e ok i s by simp
qed

text \<open>
  C1, as the code has it.  Let the lines \<open>pre\<close> have been encoded without error,
  starting with the comparison state unset (its value when the module is loaded), and
  let the next line be a \<open>BEQ\<close> or \<open>BGT\<close>.  With exactly one operand, encoding it fails
  with \<open>MissingComparison\<close> if and only if no line of \<open>pre\<close> is a \<open>CMP\<close>; if one is, it
  succeeds, whatever the operands of that \<open>CMP\<close> were; and in the run over \<open>pre\<close>, the
  line and any further lines the error is then the run's error.  With any other number
  of operands it fails with \<open>InvalidSyntax\<close>, whether or not a \<open>CMP\<close> came before.
\<close>

theorem conditional_branch_needs_comparison:
  assumes "run_error (second_pass pre pc0 st0 bins hexs) = None"
    and "last_cmp st0 = None"
    and "instr_parts l = Some (inst, ops)"
    and "inst \<in> set cond_branch_mnemonics"
    and "pc = final_pc (second_pass pre pc0 st0 bins hexs)"
    and "st = final_state (second_pass pre pc0 st0 bins hexs)"
  shows "(length ops = 1 \<longrightarrow>
            (fst (assemble_instruction l pc st) = Inl (MissingComparison inst) \<longleftrightarrow>
               (\<forall>x\<in>set pre. mnemonic x \<noteq> Some ''CMP''))
          \<and> ((\<exists>x\<in>set pre. mnemonic x = Some ''CMP'') \<longrightarrow>
               (\<exists>w. fst (assemble_instruction l pc st) = Inr (Some w)))
          \<and> ((\<forall>x\<in>set pre. mnemonic x \<noteq> Some ''CMP'') \<longrightarrow>
               run_error (second_pass (pre @ l # post) pc0 st0 bins hexs)
                 = Some (MissingComparison inst)))
       \<and> (length ops \<noteq> 1 \<longrightarrow>
            fst (assemble_instruction l pc st) = Inl (InvalidSyntax inst l))"
proof (intro conjI impI)
  assume "length ops \<noteq> 1"
  then show "fst (assemble_instruction l pc st) = Inl (InvalidSyntax inst l)"
    using encode_cond_branch_operand_count [OF assms(4), of ops l pc st] assms(3)
    by (simp add: assemble_instruction_def)
next
  assume "length ops = 1"
  then obtain lbl where ops: "ops = [lbl]"
    by (cases ops) simp_all
  have none: "last_cmp st = None \<longleftrightarrow> (\<forall>x\<in>set pre. mnemonic x \<noteq> Some ''CMP'')"
    using second_pass_last_cmp_None_iff [OF assms(1)] assms(2,6) by simp
  obtain opcode where enc: "encode l inst [lbl] pc st =
       (if last_cmp st = None then (Inl (MissingComparison inst), st)
        else (Inr (Some (branch_word opcode lbl pc st)), st))"
    using encode_cond_branch_one [OF assms(4)] by blast
  have asm: "assemble_instruction l pc st =
       (if last_cmp st = None then (Inl (MissingComparison inst), st)
        else (Inr (Some (branch_word opcode lbl pc st)), st))"
    using enc assms(3) ops by (simp add: assemble_instruction_def)
  have run: "run_error (second_pass (pre @ l # post) pc0 st0 bins hexs)
        = Some (MissingComparison inst)" if "last_cmp st = None"
    using that assms(1,5,6) asm
    by (simp add: second_pass_append Let_def run_error_def)
  show "fst (assemble_instruction l pc st) = Inl (MissingComparison inst) \<longleftrightarrow>
      (\<forall>x\<in>set pre. mnemonic x \<noteq> Some ''CMP'')"
    using none asm by auto
  show "\<exists>w. fst (assemble_instruction l pc st) = Inr (Some w)"
    if "\<exists>x\<in>set pre. mnemonic x = Some ''CMP''"
    using that none asm by auto
  show "run_error (second_pass (pre @ l # post) pc0 st0 bins hexs)
      = Some (MissingComparison inst)"
    if "\<forall>x\<in>set pre. mnemonic x \<noteq> Some ''CMP''"
    using that none run by simp
qed

theorem conditional_branch_needs_comparison_witness:
  "fst (assemble_instruction ''BEQ start'' 4
       (final_state (second_pass [''MOV R1, 5''] 0 initial_state [] [])))
     = Inl (MissingComparison ''BEQ'')
   \<and> run_error (second_pass [''MOV R1, 5'', ''BEQ start'', ''HLT''] 0 initial_state [] [])
       = Some (MissingComparison ''BEQ'')
   \<and> (\<exists>w. fst (assemble_instruction ''BGT start'' 8
         (final_state (second_pass [''CMP R1, R9'', ''NOP''] 0 initial_state [] []))) = Inr (Some w))
   \<and> fst (assemble_instruction ''BGT a b'' 8
         (final_state (second_pass [''CMP R1, R9'', ''NOP''] 0 initial_state [] [])))
       = Inl (InvalidSyntax ''BGT'' ''BGT a b'')"
proof -
  let ?pre1 = "[''MOV R1, 5'']" and ?pre2 = "[''CMP R1, R9'', ''NOP'']"
  have i: "last_cmp initial_state = None"
    by (simp add: initial_state_def)
  have ok1: "run_error (second_pass ?pre1 0 initial_state [] []) = None"
    and pc1: "4 = final_pc (second_pass ?pre1 0 initial_state [] [])"
    and p1: "instr_parts ''BEQ start'' = Some (''BEQ'', [''start''])"
    and m1: "mnemonic ''MOV R1, 5'' = Some ''MOV''"
    by code_simp+
  have ok2: "run_error (second_pass ?pre2 0 initial_state [] []) = None"
    and pc2: "8 = final_pc (second_pass ?pre2 0 initial_state [] [])"
    and p2: "instr_parts ''BGT start'' = Some (''BGT'', [''start''])"
    and p3: "instr_parts ''BGT a b'' = Some (''BGT'', [''a'', ''b''])"
    and m2: "mnemonic ''CMP R1, R9'' = Some ''CMP''"
    by code_simp+
  have c1: "''BEQ'' \<in> set cond_branch_mnemonics" and c2: "''BGT'' \<in> set cond_branch_mnemonics"
    by (simp_all add: cond_branch_mnemonics_def)
  note t1 = conditional_branch_needs_comparison [OF ok1 i p1 c1 pc1 refl, of "[''HLT'']"]
  note t2 = conditional_branch_needs_comparison [OF ok2 i p2 c2 pc2 refl, of "[]"]
  note t3 = conditional_branch_needs_comparison [OF ok2 i p3 c2 pc2 refl, of "[]"]
  show ?thesis using t1 t2 t3 m1 m2 by simp
qed

text \<open>The claim as it was written fails in two ways.  A conditional branch without
  its operand is rejected for its syntax although no \<open>CMP\<close> came before; and the
  comparison state is a module-level variable that nothing resets, so a second run in
  the same process, whose lines hold no \<open>CMP\<close>, encodes its \<open>BEQ\<close> when the run before
  it encoded a \<open>CMP\<close>.\<close>

theorem conditional_branch_counterexample:
  "fst (assemble_instruction ''BEQ'' 0 initial_state) = Inl (InvalidSyntax ''BEQ'' ''BEQ'')
   \<and> mnemonic ''BEQ start'' = Some ''BEQ''
   \<and> run_error (assemble_file [''CMP R1, R2''] initial_state) = None
   \<and> run_error (assemble_file [''BEQ start'']
        (final_state (assemble_file [''CMP R1, R2''] initial_state))) = None
   \<and> bin_lines (assemble_file [''BEQ start'']
        (final_state (assemble_file [''CMP R1, R2''] initial_state)))
       = [''10000111111111111111111111111100'']"
  by code_simp

text \<open>
  C2.  A \<open>BEQ\<close>, \<open>BGT\<close>, \<open>B\<close> or \<open>CALL\<close> with one operand that is encoded at \<open>pc\<close> (for the
  conditional ones the comparison state is set) yields the five opcode bits followed by
  27 bits that denote \<open>(target_address - (pc + 4)) & 0x7FFFFFF\<close>, that is the offset
  modulo \<open>2^27\<close>; there is no flag bit between them.  The target address is the label's
  entry in the symbol table and 0 when the table has none, and no error is raised then.
\<close>

theorem branch_offset_encoding:
  assumes "instr_parts line = Some (inst, [lbl])"
    and "inst \<in> set cond_branch_mnemonics \<and> last_cmp st \<noteq> None \<or> inst \<in> set jump_mnemonics"
    and "target_address = (case symbol_table st lbl of None \<Rightarrow> 0 | Some a \<Rightarrow> a)"
  shows "\<exists>opcode field.
           OPCODES inst = Some opcode \<and> length opcode = 5
         \<and> assemble_instruction line pc st = (Inr (Some (opcode @ field)), st)
         \<and> length field = 27 \<and> is_bits field
         \<and> bits_value field = (target_address - (pc + 4)) AND 0x7FFFFFF
         \<and> bits_value field = (target_address - (pc + 4)) mod 2 ^ 27
         \<and> (symbol_table st lbl = None \<longrightarrow> bits_value field = (- (pc + 4)) mod 2 ^ 27)"
proof -
  obtain opcode where op: "OPCODES inst = Some opcode"
    and enc: "encode line inst [lbl] pc st = (Inr (Some (branch_word opcode lbl pc st)), st)"
    using assms(2) encode_cond_branch_one [of inst line lbl pc st]
      encode_jump_one [of inst line lbl pc st]
    by auto
  let ?v = "(target_address - (pc + 4)) AND 0x7FFFFFF"
  let ?field = "py_format 2 False 27 ?v"
  have v: "?v = (target_address - (pc + 4)) mod 2 ^ 27"
    by (rule and_mask27)
  then have range: "0 \<le> ?v" "?v < 2 ^ 27"
    by simp_all
  have w: "branch_word opcode lbl pc st = opcode @ ?field"
    using assms(3) by (simp add: branch_word_def Let_def)
  have "assemble_instruction line pc st = (Inr (Some (opcode @ ?field)), st)"
    using enc w assms(1) by (simp add: assemble_instruction_def)
  moreover have "length ?field = 27" "is_bits ?field" "bits_value ?field = ?v"
    using py_format_bits [OF range] by simp_all
  moreover have "symbol_table st lbl = None \<longrightarrow>
      (target_address - (pc + 4)) mod 2 ^ 27 = (- (pc + 4)) mod 2 ^ 27"
    using assms(3) by simp
  ultimately show ?thesis
    using op OPCODES_shape(1) [OF op] v
    by (intro exI [of _ opcode] exI [of _ ?field]) (simp only: simp_thms)
qed

theorem branch_offset_encoding_witness:
  "(\<exists>field. assemble_instruction ''B nowhere'' 8 initial_state
       = (Inr (Some (''10010'' @ field)), initial_state)
     \<and> length field = 27 \<and> bits_value field = 2 ^ 27 - 12)"
proof -
  have p: "instr_parts ''B nowhere'' = Some (''B'', [''nowhere''])"
    by code_simp
  have j: "''B'' \<in> set cond_branch_mnemonics \<and> last_cmp initial_state \<noteq> None
            \<or> ''B'' \<in> set jump_mnemonics"
    by (simp add: jump_mnemonics_def)
  have t: "(0::int) = (case symbol_table initial_state ''nowhere'' of None \<Rightarrow> 0 | Some a \<Rightarrow> a)"
    by (simp add: initial_state_def)
  have o: "OPCODES ''B'' = Some ''10010''"
    by (simp add: OPCODES_def)
  show ?thesis
    using branch_offset_encoding [OF p j t, of 8] o by auto
qed

section \<open>Reading a word back as a number\<close>

lemma word_char_cases:
  "word_char c \<Longrightarrow>
   c = CHR ''0'' \<or> c = CHR ''1'' \<or> c = CHR ''N'' \<or> c = CHR ''o'' \<or> c = CHR ''n'' \<or> c = CHR ''e''"
  by (simp add: word_char_def)

lemma digit_in2_word_char:
  assumes "word_char c"
  shows "digit_in 2 c = (if c = CHR ''0'' then Some 0 else if c = CHR ''1'' then Some 1 else None)"
  using word_char_cases [OF assms]
  by (elim disjE) (simp_all add: digit_in_def digit_value_def)

lemma word_char_not_special:
  assumes "word_char c"
  shows "c \<noteq> CHR ''_''" "c \<noteq> CHR ''-''" "c \<noteq> CHR ''+''" "c \<noteq> CHR ''b''" "c \<noteq> CHR ''B''"
  using word_char_cases [OF assms] by auto

lemma int_digits2_word:
  "list_all word_char s \<Longrightarrow> int_digits 2 acc s = Some n \<Longrightarrow>
   is_bits s \<and> n = foldl (\<lambda>a c. 2 * a + bit_value c) acc s"
proof (induction s arbitrary: acc)
  case Nil
  then show ?case by (simp add: is_bits_def)
next
  case (Cons c s)
  have c: "word_char c" and s: "list_all word_char s"
    using Cons.prems(1) by simp_all
  have d: "digit_in 2 c = (if c = CHR ''0'' then Some 0 else if c = CHR ''1'' then Some 1 else None)"
    by (rule digit_in2_word_char [OF c])
  have bit: "c = CHR ''0'' \<or> c = CHR ''1''"
    using Cons.prems(2) word_char_not_special(1) [OF c] d by (auto split: if_splits)
  then have rest: "int_digits 2 (acc * 2 + bit_value c) s = Some n"
    using Cons.prems(2) word_char_not_special(1) [OF c] d by (auto simp: bit_value_def)
  from Cons.IH [OF s rest] bit show ?case
    by (auto simp: is_bits_def bit_value_def mult.commute)
qed

lemma py_int2_word:
  assumes "list_all word_char w" "py_int 2 w = Some n"
  shows "is_bits w" and "n = bits_value w"
proof -
  obtain c cs where w: "w = c # cs"
    using assms(2) by (cases w) (simp_all add: py_int_def)
  have c: "word_char c" and cs: "list_all word_char cs"
    using assms(1) w by simp_all
  have skip: "skip_prefix 2 w = w"
  proof (cases cs)
    case Nil
    then show ?thesis using w by (simp add: skip_prefix_def)
  next
    case (Cons c1 r)
    then have "word_char c1" using cs by simp
    then show ?thesis
      using w Cons word_char_not_special(4,5) [of c1] by (simp add: skip_prefix_def)
  qed
  have body: "int_body 2 w = Some n"
    using assms(2) w word_char_not_special(2,3) [OF c] skip by (simp add: py_int_def)
  have d: "digit_in 2 c = (if c = CHR ''0'' then Some 0 else if c = CHR ''1'' then Some 1 else None)"
    by (rule digit_in2_word_char [OF c])
  have bit: "c = CHR ''0'' \<or> c = CHR ''1''"
    using body w d by (auto simp: int_body_def no_digit_limit_base2 split: if_splits)
  then have rest: "int_digits 2 (bit_value c) cs = Some n"
    using body w d by (auto simp: int_body_def no_digit_limit_base2 bit_value_def)
  from int_digits2_word [OF cs rest] bit w
  show "is_bits w" and "n = bits_value w"
    by (auto simp: is_bits_def bits_value_def)
qed

lemma bits_value_snoc: "bits_value (s @ [c]) = 2 * bits_value s + bit_value c"
  by (simp add: bits_value_def)

lemma bits_value_range: "is_bits s \<Longrightarrow> 0 \<le> bits_value s \<and> bits_value s < 2 ^ length s"
proof (induction s rule: rev_induct)
  case Nil
  show ?case by (simp add: bits_value_def)
next
  case (snoc c s)
  then have "0 \<le> bits_value s \<and> bits_value s < 2 ^ length s"
    by (simp add: is_bits_def)
  moreover have "bit_value c = 0 \<or> bit_value c = 1"
    by (simp add: bit_value_def)
  ultimately show ?case
    by (auto simp: bits_value_snoc)
qed

lemma hex_of_bin_word:
  assumes "word_shape w" "py_int 2 w = Some n"
  shows "hex_of_bin w (py_format 16 True 8 n)"
proof -
  have len: "length w = 32" and chars: "list_all word_char w"
    using assms(1) by (simp_all add: word_shape_def)
  have bits: "is_bits w" and n: "n = bits_value w"
    using py_int2_word [OF chars assms(2)] by simp_all
  have "0 \<le> n" "n < 2 ^ 32"
    using bits_value_range [OF bits] len n by simp_all
  from py_format_hex [OF this] show ?thesis
    using len bits n by (simp add: hex_of_bin_def)
qed

lemma int_digits2_bits:
  "is_bits s \<Longrightarrow> int_digits 2 acc s = Some (foldl (\<lambda>a c. 2 * a + bit_value c) acc s)"
proof (induction s arbitrary: acc)
  case Nil
  show ?case by simp
next
  case (Cons c s)
  then have bit: "c = CHR ''0'' \<or> c = CHR ''1''" and s: "is_bits s"
    by (simp_all add: is_bits_def)
  from bit show ?case
    by (elim disjE)
      (simp_all add: Cons.IH [OF s] digit_in_def digit_value_def bit_value_def mult.commute)
qed

lemma py_int2_bits:
  assumes "is_bits w" "w \<noteq> []"
  shows "py_int 2 w = Some (bits_value w)"
proof -
  obtain c cs where w: "w = c # cs"
    using assms(2) by (cases w) simp_all
  have bit: "c = CHR ''0'' \<or> c = CHR ''1''" and cs: "is_bits cs"
    using assms(1) w by (simp_all add: is_bits_def)
  have skip: "skip_prefix 2 w = w"
  proof (cases cs)
    case Nil
    then show ?thesis using w by (simp add: skip_prefix_def)
  next
    case (Cons c1 r)
    then have "c1 = CHR ''0'' \<or> c1 = CHR ''1''" using cs by (simp add: is_bits_def)
    then show ?thesis
      using w Cons by (auto simp: skip_prefix_def)
  qed
  have "int_body 2 w = Some (bits_value w)"
    using bit w int_digits2_bits [OF cs]
    by (elim disjE)
      (simp_all add: int_body_def no_digit_limit_base2 digit_in_def digit_value_def
        bits_value_def bit_value_def)
  then show ?thesis
    using bit w skip by (auto simp: py_int_def)
qed

lemma second_pass_hex:
  assumes "list_all2 hex_of_bin bins hexs"
  shows "list_all2 hex_of_bin
           (take (length (hex_lines (second_pass lines pc st bins hexs)))
              (bin_lines (second_pass lines pc st bins hexs)))
           (hex_lines (second_pass lines pc st bins hexs))
       \<and> (length (bin_lines (second_pass lines pc st bins hexs))
             = length (hex_lines (second_pass lines pc st bins hexs))
          \<or> length (bin_lines (second_pass lines pc st bins hexs))
               = Suc (length (hex_lines (second_pass lines pc st bins hexs)))
            \<and> run_error (second_pass lines pc st bins hexs)
                 = Some (InvalidLiteral (last (bin_lines (second_pass lines pc st bins hexs))))
            \<and> \<not> is_bits (last (bin_lines (second_pass lines pc st bins hexs))))
       \<and> (run_error (second_pass lines pc st bins hexs) = None \<longrightarrow>
            length (bin_lines (second_pass lines pc st bins hexs))
              = length (hex_lines (second_pass lines pc st bins hexs)))"
  using assms
proof (induction lines arbitrary: pc st bins hexs)
  case Nil
  then show ?case
    by (simp add: bin_lines_def hex_lines_def run_error_def list_all2_lengthD)
next
  case (Cons line lines)
  obtain r st1 where a: "assemble_instruction line pc st = (r, st1)"
    by (cases "assemble_instruction line pc st")
  have len: "length bins = length hexs"
    using Cons.prems by (rule list_all2_lengthD)
  note step = second_pass_step [OF a, of lines bins hexs]
  show ?case
  proof (cases r)
    case (Inl e)
    then show ?thesis
      using Cons.prems len unfolding step
      by (simp add: bin_lines_def hex_lines_def run_error_def)
  next
    case (Inr x)
    show ?thesis
    proof (cases x)
      case None
      then show ?thesis
        using Inr Cons.IH [OF Cons.prems] unfolding step by simp
    next
      case (Some w)
      have shape: "word_shape w"
        using assemble_instruction_outcome(6) [OF a] Inr Some by simp
      then have ne: "w \<noteq> []"
        by (auto simp: word_shape_def)
      show ?thesis
      proof (cases "py_int 2 w")
        case None
        then have "\<not> is_bits w"
          using py_int2_bits [OF _ ne] by auto
        then show ?thesis
          using None Inr Some ne Cons.prems len unfolding step
          by (simp add: bin_lines_def hex_lines_def run_error_def)
      next
        case (Some n)
        have "list_all2 hex_of_bin (bins @ [w]) (hexs @ [py_format 16 True 8 n])"
          using Cons.prems hex_of_bin_word [OF shape Some]
          by (simp add: list_all2_appendI)
        from Cons.IH [OF this] show ?thesis
          using Inr \<open>x = Some w\<close> ne Some unfolding step by simp
      qed
    qed
  qed
qed

text \<open>
  What holds of the two streams.  In the outcome of a run every hex line is the
  eight-digit, upper-case hexadecimal form of the binary line at the same position:
  that binary line is a string of 32 binary digits, and the hex line is
  \<open>format(n, '08X')\<close> of the number \<open>n\<close> it denotes, has exactly eight characters from
  \<open>0-9A-F\<close> and denotes \<open>n\<close> too.  The two streams have the same length, except that a
  run which ends at a binary line \<open>int(binary_code, 2)\<close> rejects, a word that is not made
  of binary digits, has written that last binary line alone.
\<close>

theorem hex_lines_match_bin_lines:
  "list_all2 hex_of_bin
     (take (length (hex_lines (assemble_file lines st))) (bin_lines (assemble_file lines st)))
     (hex_lines (assemble_file lines st))
   \<and> (length (bin_lines (assemble_file lines st)) = length (hex_lines (assemble_file lines st))
      \<or> length (bin_lines (assemble_file lines st))
           = Suc (length (hex_lines (assemble_file lines st)))
        \<and> run_error (assemble_file lines st)
             = Some (InvalidLiteral (last (bin_lines (assemble_file lines st))))
        \<and> \<not> is_bits (last (bin_lines (assemble_file lines st))))
   \<and> (run_error (assemble_file lines st) = None \<longrightarrow>
        length (bin_lines (assemble_file lines st)) = length (hex_lines (assemble_file lines st)))"
  unfolding assemble_file_def by (rule second_pass_hex) simp

theorem hex_lines_match_bin_lines_witness:
  "list_all2 hex_of_bin
     [''01001100010000000000000000000101'', ''00101100000001000000000000000101'',
      ''10000111111111111111111111110100'', ''11111000000000000000000000000000'']
     [''4C400005'', ''2C040005'', ''87FFFFF4'', ''F8000000'']"
proof -
  let ?lines = "[''start:'', ''MOV R1 5'', ''CMP R1 5'', ''BEQ start'', ''HLT'']"
  have b: "bin_lines (assemble_file ?lines initial_state) =
      [''01001100010000000000000000000101'', ''00101100000001000000000000000101'',
       ''10000111111111111111111111110100'', ''11111000000000000000000000000000'']"
    by code_simp
  have h: "hex_lines (assemble_file ?lines initial_state) =
      [''4C400005'', ''2C040005'', ''87FFFFF4'', ''F8000000'']"
    by code_simp
  have e: "run_error (assemble_file ?lines initial_state) = None"
    by code_simp
  show ?thesis
    using hex_lines_match_bin_lines [of ?lines initial_state] e unfolding b h by simp
qed

text \<open>
  C7.  The hex line of a binary line is computed after the binary line is written.
  A word with an unknown register (see C4) is therefore written to the binary stream
  and has no hex line: the streams of such a run are not equal entry by entry.
\<close>

theorem binary_line_without_hex_line:
  "bin_lines (assemble_file [''NOP'', ''ADD R1, R2, R16'', ''HLT''] initial_state)
     = [''01101000000000000000000000000000'', ''00000000010010None00000000000000'']
   \<and> hex_lines (assemble_file [''NOP'', ''ADD R1, R2, R16'', ''HLT''] initial_state)
     = [''68000000'']
   \<and> run_error (assemble_file [''NOP'', ''ADD R1, R2, R16'', ''HLT''] initial_state)
     = Some (InvalidLiteral ''00000000010010None00000000000000'')"
  by code_simp

section \<open>Addresses in the first pass\<close>

lemma and_not_3:
  assumes "4 dvd (pc::int)"
  shows "pc AND NOT 3 = pc"
proof -
  obtain k where k: "pc = push_bit 2 k"
    using assms by (auto simp: push_bit_eq_mult elim!: dvdE)
  have three: "(3::int) = mask 2"
    by (simp add: mask_eq_exp_minus_1)
  show ?thesis
    unfolding k three
    by (rule bit_eqI) (auto simp: bit_and_iff bit_not_iff bit_push_bit_iff bit_mask_iff)
qed

lemma first_pass_loop_append:
  "first_pass_loop (xs @ ys) s = first_pass_loop ys (first_pass_loop xs s)"
  by (induction xs arbitrary: s) simp_all

lemma first_pass_loop_pc:
  "fst (first_pass_loop lines (pc, st)) = pc + 4 * int (length (filter counted lines))"
proof (induction lines arbitrary: pc st)
  case Nil
  show ?case by simp
next
  case (Cons line lines)
  show ?case
    by (simp add: first_pass_line_eq Cons.IH)
qed

lemma first_pass_loop_other:
  "\<forall>x\<in>set lines. label_of x \<noteq> Some l \<Longrightarrow>
   symbol_table (snd (first_pass_loop lines (pc, st))) l = symbol_table st l"
proof (induction lines arbitrary: pc st)
  case Nil
  show ?case by simp
next
  case (Cons line lines)
  have rest: "\<forall>x\<in>set lines. label_of x \<noteq> Some l" and line: "label_of line \<noteq> Some l"
    using Cons.prems by simp_all
  show ?case
    using line by (simp add: first_pass_line_eq Cons.IH [OF rest] split: option.split)
qed

lemma first_pass_loop_defined:
  assumes "label_of line = Some l" "\<forall>x\<in>set post. label_of x \<noteq> Some l" "4 dvd pc"
  shows "symbol_table (snd (first_pass_loop (pre @ line # post) (pc, st))) l
           = Some (pc + 4 * int (length (filter counted pre)))"
proof -
  obtain st1 where pre: "first_pass_loop pre (pc, st)
      = (pc + 4 * int (length (filter counted pre)), st1)"
    using first_pass_loop_pc [of pre pc st] by (cases "first_pass_loop pre (pc, st)") simp
  let ?pc1 = "pc + 4 * int (length (filter counted pre))"
  have "4 dvd ?pc1"
    using assms(3) by simp
  then have al: "?pc1 AND NOT 3 = ?pc1"
    by (rule and_not_3)
  obtain pc2 st2 where line: "first_pass_line line (?pc1, st1) = (pc2, st2)"
    by (cases "first_pass_line line (?pc1, st1)")
  then have "symbol_table st2 l = Some ?pc1"
    using assms(1) al by (auto simp: first_pass_line_eq)
  then show ?thesis
    using first_pass_loop_other [OF assms(2), of pc2 st2] pre line
    by (simp add: first_pass_loop_append)
qed

lemma second_pass_pc:
  "run_error (second_pass lines pc st bins hexs) = None \<Longrightarrow>
   final_pc (second_pass lines pc st bins hexs)
     = pc + 4 * int (length (filter has_instruction lines))"
proof (induction lines arbitrary: pc st bins hexs)
  case Nil
  show ?case by (simp add: final_pc_def)
next
  case (Cons line lines)
  obtain r st1 where a: "assemble_instruction line pc st = (r, st1)"
    by (cases "assemble_instruction line pc st")
  note step = second_pass_step [OF a, of lines bins hexs]
  from Cons.prems obtain x where r: "r = Inr x"
    unfolding step by (cases r) (simp_all add: run_error_def)
  show ?case
  proof (cases x)
    case None
    then have "\<not> has_instruction line"
      using assemble_instruction_outcome(5) [OF a] r by (simp add: has_instruction_def)
    then show ?thesis
      using Cons.prems Cons.IH [of pc st1 bins hexs] r None unfolding step by simp
  next
    case (Some w)
    then have h: "has_instruction line"
      using assemble_instruction_outcome(5) [OF a] r by (simp add: has_instruction_def)
    have "word_shape w"
      using assemble_instruction_outcome(6) [OF a] r Some by simp
    then have ne: "w \<noteq> []"
      by (auto simp: word_shape_def)
    obtain n where n: "py_int 2 w = Some n"
      using Cons.prems r Some ne unfolding step
      by (cases "py_int 2 w") (simp_all add: run_error_def)
    show ?thesis
      using Cons.prems Cons.IH [of "pc + 4" st1 "bins @ [w]" "hexs @ [py_format 16 True 8 n]"]
        r Some ne n h
      unfolding step by simp
  qed
qed

text \<open>
  C3, as the code has it.  A line with a label and further text records the label at
  the current pc and advances the pc by 4; a line with only a label records it and
  leaves the pc.  So the first pass maps a label to 4 times the number of lines before
  its last definition that the first pass counts (lines that are not empty once the
  comment is removed and, if they hold a \<open>:\<close>, have text after it), which is the address
  the first pass has reached at the next line it counts.  That is the address of the
  next word the second pass emits provided the second pass, running without error,
  finds an instruction on exactly the lines before the label that the first pass counts.
\<close>

theorem label_addresses:
  "(4 dvd pc \<and> label_of line = Some l \<and> counted line \<longrightarrow>
      first_pass_line line (pc, st)
        = (pc + 4, st\<lparr>symbol_table := (symbol_table st)(l \<mapsto> pc)\<rparr>))
   \<and> (4 dvd pc \<and> label_of line = Some l \<and> \<not> counted line \<longrightarrow>
      first_pass_line line (pc, st) = (pc, st\<lparr>symbol_table := (symbol_table st)(l \<mapsto> pc)\<rparr>))
   \<and> (label_of line = Some l \<and> (\<forall>x\<in>set post. label_of x \<noteq> Some l) \<longrightarrow>
      symbol_table (first_pass (pre @ line # post) st) l
        = Some (4 * int (length (filter counted pre)))
      \<and> (\<not> counted line \<and> (\<forall>x\<in>set skipped. \<not> counted x) \<longrightarrow>
           fst (first_pass_loop (pre @ line # skipped) (0, st))
             = 4 * int (length (filter counted pre)))
      \<and> (run_error (second_pass pre 0 ste bins hexs) = None
           \<and> (\<forall>x\<in>set pre. counted x \<longleftrightarrow> has_instruction x) \<longrightarrow>
           Some (final_pc (second_pass pre 0 ste bins hexs))
             = symbol_table (first_pass (pre @ line # post) st) l))"
proof (intro conjI impI)
  show "first_pass_line line (pc, st)
      = (pc + 4, st\<lparr>symbol_table := (symbol_table st)(l \<mapsto> pc)\<rparr>)"
    if "4 dvd pc \<and> label_of line = Some l \<and> counted line"
    using that and_not_3 [of pc] by (simp add: first_pass_line_eq)
  show "first_pass_line line (pc, st) = (pc, st\<lparr>symbol_table := (symbol_table st)(l \<mapsto> pc)\<rparr>)"
    if "4 dvd pc \<and> label_of line = Some l \<and> \<not> counted line"
    using that and_not_3 [of pc] by (simp add: first_pass_line_eq)
  assume def: "label_of line = Some l \<and> (\<forall>x\<in>set post. label_of x \<noteq> Some l)"
  then show entry: "symbol_table (first_pass (pre @ line # post) st) l
      = Some (4 * int (length (filter counted pre)))"
    using first_pass_loop_defined [of line l post 0 pre st] by (simp add: first_pass_def)
  show "fst (first_pass_loop (pre @ line # skipped) (0, st))
      = 4 * int (length (filter counted pre))"
    if "\<not> counted line \<and> (\<forall>x\<in>set skipped. \<not> counted x)"
  proof -
    have "filter counted skipped = []"
      using that by (simp add: filter_empty_conv)
    then show ?thesis
      using that by (simp add: first_pass_loop_pc)
  qed
  show "Some (final_pc (second_pass pre 0 ste bins hexs))
      = symbol_table (first_pass (pre @ line # post) st) l"
    if "run_error (second_pass pre 0 ste bins hexs) = None
        \<and> (\<forall>x\<in>set pre. counted x \<longleftrightarrow> has_instruction x)"
  proof -
    have "filter has_instruction pre = filter counted pre"
      using that by (intro filter_cong) auto
    then show ?thesis
      using that second_pass_pc [of pre 0 ste bins hexs] entry by simp
  qed
qed

theorem label_addresses_witness:
  "first_pass_line ''loop: ADD R1, R2, R3'' (8, initial_state)
     = (12, initial_state\<lparr>symbol_table := (symbol_table initial_state)(''loop'' \<mapsto> 8)\<rparr>)
   \<and> first_pass_line ''loop:'' (8, initial_state)
     = (8, initial_state\<lparr>symbol_table := (symbol_table initial_state)(''loop'' \<mapsto> 8)\<rparr>)
   \<and> symbol_table (first_pass [''NOP'', ''NOP'', ''loop:'', '''', ''HLT''] initial_state) ''loop''
     = Some 8
   \<and> fst (first_pass_loop [''NOP'', ''NOP'', ''loop:'', ''''] (0, initial_state)) = 8
   \<and> Some (final_pc (second_pass [''NOP'', ''NOP''] 0 initial_state [] []))
     = symbol_table (first_pass [''NOP'', ''NOP'', ''loop:'', '''', ''HLT''] initial_state) ''loop''"
proof -
  have l1: "label_of ''loop: ADD R1, R2, R3'' = Some ''loop''"
    and c1: "counted ''loop: ADD R1, R2, R3''"
    and l2: "label_of ''loop:'' = Some ''loop''"
    and c2: "\<not> counted ''loop:''"
    and c3: "\<not> counted ''''"
    and l3: "label_of '''' \<noteq> Some ''loop''" "label_of ''HLT'' \<noteq> Some ''loop''"
    and c4: "counted ''NOP''" "has_instruction ''NOP''"
    and ok: "run_error (second_pass [''NOP'', ''NOP''] 0 initial_state [] []) = None"
    by code_simp+
  note t1 = label_addresses [where pc = 8 and line = "''loop: ADD R1, R2, R3''" and l = "''loop''"
      and st = initial_state and post = "[]" and pre = "[]" and skipped = "[]"
      and ste = initial_state and bins = "[]" and hexs = "[]"]
  note t2 = label_addresses [where pc = 8 and line = "''loop:''" and l = "''loop''"
      and st = initial_state and post = "['''', ''HLT'']" and pre = "[''NOP'', ''NOP'']"
      and skipped = "['''']" and ste = initial_state and bins = "[]" and hexs = "[]"]
  have "first_pass_line ''loop: ADD R1, R2, R3'' (8, initial_state)
     = (12, initial_state\<lparr>symbol_table := (symbol_table initial_state)(''loop'' \<mapsto> 8)\<rparr>)"
    using t1 l1 c1 by simp
  moreover have "first_pass_line ''loop:'' (8, initial_state)
     = (8, initial_state\<lparr>symbol_table := (symbol_table initial_state)(''loop'' \<mapsto> 8)\<rparr>)"
    using t2 l2 c2 by simp
  moreover have "symbol_table (first_pass [''NOP'', ''NOP'', ''loop:'', '''', ''HLT''] initial_state)
      ''loop'' = Some 8"
    using t2 l2 l3 c4 by simp
  moreover have "fst (first_pass_loop [''NOP'', ''NOP'', ''loop:'', ''''] (0, initial_state)) = 8"
    using t2 l2 l3 c2 c3 c4 by simp
  moreover have "Some (final_pc (second_pass [''NOP'', ''NOP''] 0 initial_state [] []))
     = symbol_table (first_pass [''NOP'', ''NOP'', ''loop:'', '''', ''HLT''] initial_state) ''loop''"
    using t2 l2 l3 c4 ok by simp
  ultimately show ?thesis by blast
qed

theorem label_addresses_counterexample:
  "symbol_table (first_pass ['','', ''x:'', ''NOP''] initial_state) ''x'' = Some 4
   \<and> run_error (assemble_file ['','', ''x:'', ''NOP''] initial_state) = None
   \<and> bin_lines (assemble_file ['','', ''x:'', ''NOP''] initial_state)
       = [''01101000000000000000000000000000'']
   \<and> final_pc (second_pass ['','', ''x:'']
        0 (first_pass ['','', ''x:'', ''NOP''] initial_state) [] []) = 0"
  by code_simp

text \<open>
  C10.  The first pass cannot fail (it is a total function without an error value), and
  a label defined on several lines ends up with the address of its last definition:
  each definition stores the current pc over whatever the table held for the name.
\<close>

theorem duplicate_label_last_wins:
  assumes "label_of l1 = Some l" and "label_of l2 = Some l"
    and "\<forall>x\<in>set post. label_of x \<noteq> Some l"
  shows "symbol_table (first_pass (pre @ [l1]) st) l = Some (4 * int (length (filter counted pre)))
       \<and> symbol_table (first_pass (pre @ l1 # mid @ l2 # post) st) l
           = Some (4 * int (length (filter counted (pre @ l1 # mid))))
       \<and> symbol_table (snd (first_pass_line l2 (pc, st'))) l = Some (pc AND NOT 3)"
proof -
  have "symbol_table (first_pass (pre @ [l1]) st) l = Some (4 * int (length (filter counted pre)))"
    using first_pass_loop_defined [of l1 l "[]" 0 pre st] assms(1) by (simp add: first_pass_def)
  moreover have "symbol_table (first_pass (pre @ l1 # mid @ l2 # post) st) l
           = Some (4 * int (length (filter counted (pre @ l1 # mid))))"
    using first_pass_loop_defined [of l2 l post 0 "pre @ l1 # mid" st] assms(2,3)
    by (simp add: first_pass_def)
  moreover have "symbol_table (snd (first_pass_line l2 (pc, st'))) l = Some (pc AND NOT 3)"
    using assms(2) by (simp add: first_pass_line_eq)
  ultimately show ?thesis by blast
qed

theorem duplicate_label_last_wins_witness:
  "symbol_table (first_pass [''x: NOP''] initial_state) ''x'' = Some 0
   \<and> symbol_table (first_pass [''x: NOP'', ''NOP'', ''x:'', ''HLT''] initial_state) ''x'' = Some 8
   \<and> symbol_table (snd (first_pass_line ''x:'' (8, initial_state))) ''x'' = Some 8"
proof -
  have l1: "label_of ''x: NOP'' = Some ''x''" and l2: "label_of ''x:'' = Some ''x''"
    and l3: "\<forall>x\<in>set [''HLT'']. label_of x \<noteq> Some ''x''"
    and c: "counted ''x: NOP''" "counted ''NOP''"
    by code_simp+
  have a: "(8::int) AND NOT 3 = 8"
    by (rule and_not_3) simp
  show ?thesis
    using duplicate_label_last_wins [OF l1 l2 l3, of "[]" initial_state "[''NOP'']" 8 initial_state]
      c a by simp
qed

section \<open>Letter case\<close>

lemma upper_char_plain:
  assumes "c = CHR ''-'' \<or> isdigit_char c" "upper_char d = upper_char c"
  shows "d = c"
proof -
  have c: "upper_char c = c" "\<not> (65 \<le> (of_char c :: nat) \<and> (of_char c :: nat) \<le> 90)"
    using assms(1) by (auto simp: upper_char_def isdigit_char_def Let_def)
  show ?thesis
  proof (cases "97 \<le> (of_char d :: nat) \<and> (of_char d :: nat) \<le> 122")
    case True
    then have "upper_char d = char_of ((of_char d :: nat) - 32)"
      by (simp add: upper_char_def)
    then have "(of_char c :: nat) = (of_char d - 32) mod 256"
      using assms(2) c(1) by (metis of_char_of)
    then show ?thesis using True c(2) by auto
  next
    case False
    then have "upper_char d = d"
      by (auto simp: upper_char_def Let_def)
    then show ?thesis using assms(2) c(1) by simp
  qed
qed

lemma str_upper_plain:
  "list_all (\<lambda>c. c = CHR ''-'' \<or> isdigit_char c) a \<Longrightarrow> str_upper b = str_upper a \<Longrightarrow> b = a"
proof (induction a arbitrary: b)
  case Nil
  then show ?case by (simp add: str_upper_def)
next
  case (Cons c a)
  then obtain d b' where b: "b = d # b'"
    by (cases b) (simp_all add: str_upper_def)
  have "d = c"
    using Cons.prems b upper_char_plain [of c d] by (simp add: str_upper_def)
  moreover have "b' = a"
    using Cons.prems b Cons.IH [of b'] by (simp add: str_upper_def)
  ultimately show ?case using b by simp
qed

lemma is_imm_plain: "is_imm a \<Longrightarrow> list_all (\<lambda>c. c = CHR ''-'' \<or> isdigit_char c) a"
proof -
  assume "is_imm a"
  then have d: "list_all isdigit_char (dropWhile (\<lambda>c. c = CHR ''-'') a)"
    by (simp add: is_imm_def str_isdigit_def lstrip_minus_def)
  have "list_all (\<lambda>c. c = CHR ''-'' \<or> isdigit_char c)
          (takeWhile (\<lambda>c. c = CHR ''-'') a @ dropWhile (\<lambda>c. c = CHR ''-'') a)"
    unfolding list_all_append
    using d by (auto simp: list_all_iff dest: set_takeWhileD)
  then show ?thesis by simp
qed

lemma is_imm_same_case:
  assumes "str_upper a = str_upper b"
  shows "is_imm a \<longleftrightarrow> is_imm b" and "is_imm a \<Longrightarrow> a = b"
proof -
  have 1: "b = a" if "is_imm a"
    using str_upper_plain [OF is_imm_plain [OF that], of b] assms by simp
  have 2: "a = b" if "is_imm b"
    using str_upper_plain [OF is_imm_plain [OF that], of a] assms by simp
  show "is_imm a \<longleftrightarrow> is_imm b" using 1 2 by auto
  show "is_imm a \<Longrightarrow> a = b" using 1 by simp
qed

lemma reg_same_case: "str_upper a = str_upper b \<Longrightarrow> reg a = reg b"
  by (simp add: reg_def)

lemma same_encoding_refl: "same_encoding r r"
  by (simp add: same_encoding_def split: sum.split)

lemma same_encoding_errors: "same_encoding (Inl e1, st) (Inl e2, st)"
  by (simp add: same_encoding_def)

lemma encode_alu_same_case:
  assumes "map str_upper ops1 = map str_upper ops2"
  shows "same_encoding (encode_alu line1 opcode ops1 st) (encode_alu line2 opcode ops2 st)"
proof -
  have len: "length ops1 = length ops2"
    using assms by (rule map_eq_imp_length_eq)
  show ?thesis
  proof (cases "length ops1 = 3")
    case True
    then obtain a1 b1 c1 where o1: "ops1 = [a1, b1, c1]"
      by (auto simp: length_Suc_conv eval_nat_numeral)
    from True len obtain a2 b2 c2 where o2: "ops2 = [a2, b2, c2]"
      by (auto simp: length_Suc_conv eval_nat_numeral)
    have u: "str_upper a1 = str_upper a2" "str_upper b1 = str_upper b2"
      "str_upper c1 = str_upper c2"
      using assms o1 o2 by simp_all
    show ?thesis
    proof (cases "is_imm c1")
      case True
      then have "c2 = c1" using is_imm_same_case(2) [OF u(3)] by simp
      then show ?thesis
        using o1 o2 reg_same_case [OF u(1)] reg_same_case [OF u(2)]
        by (simp add: encode_alu_def same_encoding_def split: option.split)
    next
      case False
      then have "\<not> is_imm c2" using is_imm_same_case(1) [OF u(3)] by simp
      then show ?thesis
        using False o1 o2 reg_same_case [OF u(1)] reg_same_case [OF u(2)] reg_same_case [OF u(3)]
        by (simp add: encode_alu_def same_encoding_def)
    qed
  next
    case False
    then have "encode_alu line1 opcode ops1 st = (Inl (InvalidInstructionFormat line1), st)"
      by (auto simp: encode_alu_def split: list.splits)
    moreover from False len
    have "encode_alu line2 opcode ops2 st = (Inl (InvalidInstructionFormat line2), st)"
      by (auto simp: encode_alu_def split: list.splits)
    ultimately show ?thesis by (simp add: same_encoding_errors)
  qed
qed

lemma two_operands_same_case:
  assumes "map str_upper ops1 = map str_upper ops2" "length ops1 = 2"
  obtains a1 b1 a2 b2 where "ops1 = [a1, b1]" "ops2 = [a2, b2]"
    "str_upper a1 = str_upper a2" "str_upper b1 = str_upper b2"
proof -
  have len: "length ops1 = length ops2"
    using assms(1) by (rule map_eq_imp_length_eq)
  obtain a1 b1 where o1: "ops1 = [a1, b1]"
    using assms(2) by (auto simp: length_Suc_conv eval_nat_numeral)
  obtain a2 b2 where o2: "ops2 = [a2, b2]"
    using assms(2) len by (auto simp: length_Suc_conv eval_nat_numeral)
  show thesis
    using that [OF o1 o2] assms(1) o1 o2 by simp
qed

lemma encode_cmp_same_case:
  assumes "map str_upper ops1 = map str_upper ops2"
  shows "same_encoding (encode_cmp line1 opcode ops1 st) (encode_cmp line2 opcode ops2 st)"
proof (cases "length ops1 = 2")
  case True
  from two_operands_same_case [OF assms True] obtain a1 b1 a2 b2 where
    o: "ops1 = [a1, b1]" "ops2 = [a2, b2]" and u: "str_upper a1 = str_upper a2"
      "str_upper b1 = str_upper b2"
    by blast
  show ?thesis
  proof (cases "is_imm b1")
    case True
    then have "b2 = b1" using is_imm_same_case(2) [OF u(2)] by simp
    then show ?thesis
      using o reg_same_case [OF u(1)]
      by (simp add: encode_cmp_def same_encoding_def Let_def split: option.split)
  next
    case False
    then have "\<not> is_imm b2" using is_imm_same_case(1) [OF u(2)] by simp
    then show ?thesis
      using False o reg_same_case [OF u(1)] reg_same_case [OF u(2)]
      by (simp add: encode_cmp_def same_encoding_def)
  qed
next
  case False
  have len: "length ops1 = length ops2"
    using assms by (rule map_eq_imp_length_eq)
  from False have "encode_cmp line1 opcode ops1 st = (Inl (InvalidInstructionFormat line1), st)"
    by (auto simp: encode_cmp_def split: list.splits)
  moreover from False len
  have "encode_cmp line2 opcode ops2 st = (Inl (InvalidInstructionFormat line2), st)"
    by (auto simp: encode_cmp_def split: list.splits)
  ultimately show ?thesis by (simp add: same_encoding_errors)
qed

lemma encode_unary_same_case:
  assumes "map str_upper ops1 = map str_upper ops2"
  shows "same_encoding (encode_unary line1 opcode ops1 st) (encode_unary line2 opcode ops2 st)"
proof (cases "length ops1 = 2")
  case True
  from two_operands_same_case [OF assms True] obtain a1 b1 a2 b2 where
    o: "ops1 = [a1, b1]" "ops2 = [a2, b2]" and u: "str_upper a1 = str_upper a2"
      "str_upper b1 = str_upper b2"
    by blast
  show ?thesis
  proof (cases "is_imm b1")
    case True
    then have "b2 = b1" using is_imm_same_case(2) [OF u(2)] by simp
    then show ?thesis
      using o reg_same_case [OF u(1)]
      by (simp add: encode_unary_def same_encoding_def split: option.split)
  next
    case False
    then have "\<not> is_imm b2" using is_imm_same_case(1) [OF u(2)] by simp
    then show ?thesis
      using False o reg_same_case [OF u(1)] reg_same_case [OF u(2)]
      by (simp add: encode_unary_def same_encoding_def)
  qed
next
  case False
  have len: "length ops1 = length ops2"
    using assms by (rule map_eq_imp_length_eq)
  from False have "encode_unary line1 opcode ops1 st = (Inl (InvalidInstructionFormat line1), st)"
    by (auto simp: encode_unary_def split: list.splits)
  moreover from False len
  have "encode_unary line2 opcode ops2 st = (Inl (InvalidInstructionFormat line2), st)"
    by (auto simp: encode_unary_def split: list.splits)
  ultimately show ?thesis by (simp add: same_encoding_errors)
qed

lemma encode_wide_same_case:
  assumes "str_upper a1 = str_upper a2"
  shows "same_encoding (encode_wide line1 inst opcode [a1, imm] st)
           (encode_wide line2 inst opcode [a2, imm] st)"
  using reg_same_case [OF assms]
  by (simp add: encode_wide_def same_encoding_def Let_def split: option.split)

lemma encode_same_case:
  assumes "map str_upper ops1 = map str_upper ops2"
    and "inst \<in> set alu_mnemonics \<or> inst = ''CMP'' \<or> inst \<in> set unary_mnemonics"
  shows "same_encoding (encode line1 inst ops1 pc st) (encode line2 inst ops2 pc st)"
proof (cases "OPCODES inst")
  case None
  then show ?thesis by (simp add: encode_def same_encoding_errors)
next
  case (Some opcode)
  show ?thesis
    using assms(2) encode_alu_same_case [OF assms(1)] encode_cmp_same_case [OF assms(1)]
      encode_unary_same_case [OF assms(1)]
    by (auto simp: encode_def Some)
qed

lemma encode_wide_same_case_dispatch:
  assumes "str_upper a1 = str_upper a2" and "inst \<in> set wide_mnemonics"
  shows "same_encoding (encode line1 inst [a1, imm] pc st) (encode line2 inst [a2, imm] pc st)"
proof (cases "OPCODES inst")
  case None
  then show ?thesis by (simp add: encode_def same_encoding_errors)
next
  case (Some opcode)
  have m: "map str_upper [a1, imm] = map str_upper [a2, imm]"
    using assms(1) by simp
  show ?thesis
    using assms(2) encode_alu_same_case [OF m] encode_cmp_same_case [OF m]
      encode_unary_same_case [OF m] encode_wide_same_case [OF assms(1)]
    by (auto simp: encode_def Some)
qed

lemma OPCODES_upper:
  assumes "OPCODES inst = Some opcode"
  shows "str_upper inst = inst"
  using OPCODES_cases [OF assms] by (auto simp: str_upper_def upper_char_def)

lemma same_encoding_Inr:
  "same_encoding r1 r2 \<Longrightarrow> fst r1 = Inr w \<longleftrightarrow> fst r2 = Inr w"
  by (auto simp: same_encoding_def split: sum.splits)

text \<open>
  C9.  Take two lines on which the encoder reads the same mnemonic and operands that
  are equal up to letter case (for \<open>MOVU\<close>/\<open>MOVH\<close>: the same immediate and register
  names equal up to letter case).  Then the two calls return the same word or both
  raise, and leave the same state: register names are looked up in upper case.  A
  mnemonic that is not in upper case is not in the opcode table and is rejected.
\<close>

theorem register_names_case_insensitive:
  assumes "instr_parts line1 = Some (inst, ops1)" and "instr_parts line2 = Some (inst, ops2)"
    and "(inst \<in> set alu_mnemonics \<or> inst = ''CMP'' \<or> inst \<in> set unary_mnemonics)
           \<and> map str_upper ops1 = map str_upper ops2
         \<or> inst \<in> set wide_mnemonics
           \<and> (\<exists>a1 a2 imm. ops1 = [a1, imm] \<and> ops2 = [a2, imm] \<and> str_upper a1 = str_upper a2)"
  shows "same_encoding (assemble_instruction line1 pc st) (assemble_instruction line2 pc st)
       \<and> (\<forall>w. fst (assemble_instruction line1 pc st) = Inr w
              \<longleftrightarrow> fst (assemble_instruction line2 pc st) = Inr w)
       \<and> (\<forall>line m ops. instr_parts line = Some (m, ops) \<and> str_upper m \<noteq> m \<longrightarrow>
             fst (assemble_instruction line pc st) = Inl (UnknownInstruction m))"
proof -
  have "same_encoding (encode line1 inst ops1 pc st) (encode line2 inst ops2 pc st)"
    using assms(3) encode_same_case [of ops1 ops2 inst line1 pc st line2]
      encode_wide_same_case_dispatch [of _ _ inst line1 _ pc st line2]
    by blast
  then have same: "same_encoding (assemble_instruction line1 pc st)
      (assemble_instruction line2 pc st)"
    using assms(1,2) by (simp add: assemble_instruction_def)
  have "fst (assemble_instruction line pc st) = Inl (UnknownInstruction m)"
    if "instr_parts line = Some (m, ops)" "str_upper m \<noteq> m" for line m ops
  proof -
    have "OPCODES m = None"
      using that(2) OPCODES_upper [of m] by (cases "OPCODES m") auto
    then show ?thesis using that(1) by (simp add: assemble_instruction_def encode_def)
  qed
  then show ?thesis
    using same same_encoding_Inr [OF same] by blast
qed

theorem register_names_case_insensitive_witness:
  "fst (assemble_instruction ''ADD r1, R2, r3'' 0 initial_state)
     = Inr (Some ''00000000010010001100000000000000'')
   \<and> fst (assemble_instruction ''MOVU r7, 0x1f'' 0 initial_state)
     = Inr (Some ''01001101110000000000000000011111'')
   \<and> fst (assemble_instruction ''add R1, R2, R3'' 0 initial_state)
     = Inl (UnknownInstruction ''add'')"
proof -
  have p1: "instr_parts ''ADD r1, R2, r3'' = Some (''ADD'', [''r1'', ''R2'', ''r3''])"
    and p2: "instr_parts ''ADD R1, R2, R3'' = Some (''ADD'', [''R1'', ''R2'', ''R3''])"
    and u: "map str_upper [''r1'', ''R2'', ''r3''] = map str_upper [''R1'', ''R2'', ''R3'']"
    and e: "fst (assemble_instruction ''ADD R1, R2, R3'' 0 initial_state)
      = Inr (Some ''00000000010010001100000000000000'')"
    and q1: "instr_parts ''MOVU r7, 0x1f'' = Some (''MOVU'', [''r7'', ''0x1f''])"
    and q2: "instr_parts ''MOVU R7, 0x1f'' = Some (''MOVU'', [''R7'', ''0x1f''])"
    and v: "str_upper ''r7'' = str_upper ''R7''"
    and f: "fst (assemble_instruction ''MOVU R7, 0x1f'' 0 initial_state)
      = Inr (Some ''01001101110000000000000000011111'')"
    and r: "instr_parts ''add R1, R2, R3'' = Some (''add'', [''R1'', ''R2'', ''R3''])"
    and n: "str_upper ''add'' \<noteq> ''add''"
    by code_simp+
  have c1: "(''ADD'' \<in> set alu_mnemonics \<or> ''ADD'' = ''CMP'' \<or> ''ADD'' \<in> set unary_mnemonics)
           \<and> map str_upper [''r1'', ''R2'', ''r3''] = map str_upper [''R1'', ''R2'', ''R3'']
         \<or> ''ADD'' \<in> set wide_mnemonics
           \<and> (\<exists>a1 a2 imm. [''r1'', ''R2'', ''r3''] = [a1, imm] \<and> [''R1'', ''R2'', ''R3''] = [a2, imm]
                \<and> str_upper a1 = str_upper a2)"
    using u by (simp add: alu_mnemonics_def)
  have c2: "(''MOVU'' \<in> set alu_mnemonics \<or> ''MOVU'' = ''CMP'' \<or> ''MOVU'' \<in> set unary_mnemonics)
           \<and> map str_upper [''r7'', ''0x1f''] = map str_upper [''R7'', ''0x1f'']
         \<or> ''MOVU'' \<in> set wide_mnemonics
           \<and> (\<exists>a1 a2 imm. [''r7'', ''0x1f''] = [a1, imm] \<and> [''R7'', ''0x1f''] = [a2, imm]
                \<and> str_upper a1 = str_upper a2)"
    using v by (simp add: wide_mnemonics_def)
  note t1 = register_names_case_insensitive [OF p1 p2 c1, of 0 initial_state]
  note t2 = register_names_case_insensitive [OF q1 q2 c2, of 0 initial_state]
  show ?thesis
    using t1 t2 e f r n by blast
qed

section \<open>Tokens and literals\<close>

lemma str_split_tokens:
  "t \<in> set (str_split s) \<Longrightarrow> t \<noteq> [] \<and> (\<forall>c\<in>set t. \<not> isspace c)"
proof (induction s rule: str_split.induct)
  case 1
  then show ?case by simp
next
  case (2 c cs)
  show ?case
  proof (cases "isspace c")
    case True
    then have "t \<in> set (str_split cs)"
      using "2.prems" by (simp only: str_split.simps if_True)
    then show ?thesis by (rule "2.IH"(1) [OF True])
  next
    case False
    then have "t \<in> set ((c # takeWhile (\<lambda>x. \<not> isspace x) cs)
        # str_split (dropWhile (\<lambda>x. \<not> isspace x) cs))"
      using "2.prems" by (simp only: str_split.simps if_False)
    then have "t = c # takeWhile (\<lambda>x. \<not> isspace x) cs
        \<or> t \<in> set (str_split (dropWhile (\<lambda>x. \<not> isspace x) cs))"
      by (simp only: set_ConsD list.set insert_iff)
    then show ?thesis
    proof
      assume t: "t = c # takeWhile (\<lambda>x. \<not> isspace x) cs"
      have "\<forall>x\<in>set (takeWhile (\<lambda>x. \<not> isspace x) cs). \<not> isspace x"
        by (blast dest: set_takeWhileD)
      then show ?thesis unfolding t using False by simp
    next
      assume "t \<in> set (str_split (dropWhile (\<lambda>x. \<not> isspace x) cs))"
      then show ?thesis by (rule "2.IH"(2) [OF False])
    qed
  qed
qed

lemma str_strip_token:
  assumes "t \<noteq> []" "\<forall>c\<in>set t. \<not> isspace c"
  shows "str_strip t = t"
proof -
  have "dropWhile isspace t = t"
    using assms by (cases t) simp_all
  moreover have "\<not> isspace (hd (rev t))"
    using assms by (simp add: hd_rev)
  then have "dropWhile isspace (rev t) = rev t"
    by (simp add: dropWhile_eq_self_iff)
  ultimately show ?thesis by (simp add: str_strip_def)
qed

lemma instr_parts_tokens:
  assumes "instr_parts line = Some (inst, ops)"
  shows "set (inst # ops) \<subseteq> set (tokens line)"
  using assms by (auto simp: instr_parts_def split: list.splits if_splits)

lemma operand_stripped:
  assumes "instr_parts line = Some (inst, ops)" "t \<in> set ops"
  shows "str_strip t = t"
proof -
  have "t \<in> set (str_split (filter (\<lambda>c. c \<noteq> CHR '','') line))"
    using instr_parts_tokens [OF assms(1)] assms(2) by (auto simp: tokens_def)
  from str_split_tokens [OF this] show ?thesis
    by (intro str_strip_token) simp_all
qed

lemma decimal_not_0x:
  assumes "py_int 10 d = Some v"
  shows "\<not> startswith_0x d"
proof
  assume "startswith_0x d"
  then have "take 2 d = ''0x''"
    by (simp add: startswith_0x_def)
  then obtain r where d: "d = CHR ''0'' # CHR ''x'' # r"
    by (cases d; cases "tl d") (auto simp: numeral_2_eq_2)
  have "py_int 10 d = None"
    unfolding d by (simp add: py_int_def skip_prefix_def int_body_def digit_in_def digit_value_def)
  then show False using assms by simp
qed

lemma wide_cases: "inst \<in> set wide_mnemonics \<Longrightarrow> inst = ''MOVU'' \<or> inst = ''MOVH''"
  by (simp add: wide_mnemonics_def)

lemma encode_wide_dispatch:
  assumes "inst \<in> set wide_mnemonics"
  shows "\<exists>opcode. OPCODES inst = Some opcode
     \<and> encode line inst ops pc st = encode_wide line inst opcode ops st"
  using wide_cases [OF assms]
  by (elim disjE)
    (simp_all add: encode_def OPCODES_def alu_mnemonics_def unary_mnemonics_def
      wide_mnemonics_def)

lemma encode_wide_value:
  assumes "str_strip b = b"
    and "(if startswith_0x b then py_int 16 b else py_int 10 b) = Some v"
  shows "encode_wide line inst opcode [a, b] st =
     (Inr (Some (format_binary opcode ''1'' (reg a) (Some ''0000'') (Some ''0000'')
        (Some (if inst = ''MOVU'' then v AND 0xFFFF else push_bit 16 v AND 0x3FFFF)))), st)"
proof -
  have "encode_wide line inst opcode [a, b] st =
     (case (if startswith_0x b then py_int 16 b else py_int 10 b) of
        None \<Rightarrow> (Inl (InvalidLiteral b), st)
      | Some imm \<Rightarrow>
          if inst = ''MOVU'' then
            (Inr (Some (format_binary opcode ''1'' (reg a) (Some ''0000'') (Some ''0000'')
                          (Some (imm AND 0xFFFF)))), st)
          else
            (Inr (Some (format_binary opcode ''1'' (reg a) (Some ''0000'') (Some ''0000'')
                          (Some (push_bit 16 imm AND 0x3FFFF)))), st))"
    by (simp only: encode_wide_def Let_def assms(1) list.case)
  then show ?thesis
    by (simp only: assms(2) option.case if_distrib [of "\<lambda>x. (Inr (Some (format_binary opcode ''1'' (reg a) (Some ''0000'') (Some ''0000'') (Some x))), st)"])
qed

lemma hex_literal_not_imm:
  assumes "startswith_0x h"
  shows "\<not> is_imm h"
proof -
  have "take 2 h = ''0x''"
    using assms by (simp add: startswith_0x_def)
  then obtain r where h: "h = CHR ''0'' # CHR ''x'' # r"
    by (cases h; cases "tl h") (auto simp: numeral_2_eq_2)
  show ?thesis
    unfolding h by (simp add: is_imm_def lstrip_minus_def str_isdigit_def isdigit_char_def)
qed

lemma length_filter_split:
  "int (length s) = int (length (filter (\<lambda>c. c = CHR ''_'') s))
     + int (length (filter (\<lambda>c. c \<noteq> CHR ''_'') s))"
  using sum_length_filter_compl [of "\<lambda>c. c = CHR ''_''" s] by simp

lemma int_body_length:
  assumes "int_body 10 s = Some v"
  shows "int (length s) \<le> int (length (filter (\<lambda>c. c = CHR ''_'') s)) + 4300"
proof -
  have "\<not> digit_limit_exceeded 10 s"
    using assms by (auto simp: int_body_def split: if_splits)
  then have "int (length (filter (\<lambda>c. c \<noteq> CHR ''_'') s)) \<le> 4300"
    by (simp add: digit_limit_exceeded_def int_max_str_digits_def)
  then show ?thesis using length_filter_split [of s] by simp
qed

lemma decimal_literal_length:
  assumes "py_int 10 d = Some v"
  shows "int (length d) \<le> int (length (filter (\<lambda>c. c = CHR ''_'') d)) + 4301"
proof -
  have skip: "skip_prefix 10 s = s" for s
    by (simp add: skip_prefix_def split: list.split)
  obtain c cs where d: "d = c # cs"
    using assms by (cases d) (simp_all add: py_int_def)
  show ?thesis
  proof (cases "c = CHR ''-'' \<or> c = CHR ''+''")
    case True
    then obtain u where "int_body 10 cs = Some u"
      using assms d skip by (auto simp: py_int_def)
    from int_body_length [OF this] show ?thesis
      using True d by auto
  next
    case False
    then have "int_body 10 d = Some v"
      using assms d skip by (auto simp: py_int_def)
    from int_body_length [OF this] show ?thesis by simp
  qed
qed

lemma decimal_literal_over_limit:
  "py_int 10 (CHR ''0'' # replicate 4300 (CHR ''0'')) = None"
proof -
  have skip: "skip_prefix 10 s = s" for s
    by (simp add: skip_prefix_def split: list.split)
  have "digit_limit_exceeded 10 (CHR ''0'' # replicate 4300 (CHR ''0''))"
    by (simp add: digit_limit_exceeded_def int_max_str_digits_def)
  then have "int_body 10 (CHR ''0'' # replicate 4300 (CHR ''0'')) = None"
    by (simp only: int_body_def if_True)
  then show ?thesis
    by (simp add: py_int_def skip)
qed

text \<open>
  C6, as the code has it.  \<open>MOVU\<close> and \<open>MOVH\<close> are the instructions whose immediate
  may be written with the prefix \<open>0x\<close>: a line with such a literal is encoded to the
  same word as the line with a decimal literal of the same value that \<open>int\<close> accepts
  (at most 4300 digits).  In the other forms
  the test \<open>lstrip('-').isdigit()\<close> decides whether an operand is an immediate, and no
  literal with the prefix passes it.
\<close>

theorem wide_move_hex_literal:
  assumes "instr_parts line1 = Some (inst, [rd, h])"
    and "instr_parts line2 = Some (inst, [rd, d])"
    and "inst \<in> set wide_mnemonics"
    and "startswith_0x h"
    and "py_int 16 h = Some v"
    and "py_int 10 d = Some v"
  shows "(\<exists>w. assemble_instruction line1 pc st = (Inr (Some w), st)
           \<and> assemble_instruction line2 pc st = (Inr (Some w), st)
           \<and> length w = 32)
       \<and> \<not> is_imm h
       \<and> int (length d) \<le> int (length (filter (\<lambda>c. c = CHR ''_'') d)) + 4301"
proof -
  have "\<not> is_imm h"
    using assms(4) by (rule hex_literal_not_imm)
  moreover
  have "int (length d) \<le> int (length (filter (\<lambda>c. c = CHR ''_'') d)) + 4301"
    using assms(6) by (rule decimal_literal_length)
  moreover
  have h: "str_strip h = h" and d: "str_strip d = d"
    using operand_stripped [OF assms(1)] operand_stripped [OF assms(2)] by simp_all
  have nd: "\<not> startswith_0x d"
    using assms(6) by (rule decimal_not_0x)
  have vh: "(if startswith_0x h then py_int 16 h else py_int 10 h) = Some v"
    using assms(4,5) by simp
  have vd: "(if startswith_0x d then py_int 16 d else py_int 10 d) = Some v"
    using nd assms(6) by simp
  obtain opcode where op: "OPCODES inst = Some opcode"
    and d1: "encode line1 inst [rd, h] pc st = encode_wide line1 inst opcode [rd, h] st"
    and d2: "encode line2 inst [rd, d] pc st = encode_wide line2 inst opcode [rd, d] st"
    using encode_wide_dispatch [OF assms(3), of line1 "[rd, h]" pc st]
      encode_wide_dispatch [OF assms(3), of line2 "[rd, d]" pc st]
    by auto
  let ?w = "format_binary opcode ''1'' (reg rd) (Some ''0000'') (Some ''0000'')
      (Some (if inst = ''MOVU'' then v AND 0xFFFF else push_bit 16 v AND 0x3FFFF))"
  have "assemble_instruction line1 pc st = (Inr (Some ?w), st)"
    unfolding assemble_instruction_def assms(1) option.case prod.case d1
    by (rule encode_wide_value [OF h vh])
  moreover have "assemble_instruction line2 pc st = (Inr (Some ?w), st)"
    unfolding assemble_instruction_def assms(2) option.case prod.case d2
    by (rule encode_wide_value [OF d vd])
  moreover have "''1'' = ''0'' \<or> ''1'' = ''1''"
    by simp
  then have "length ?w = 32"
    by (rule format_binary_shape(1) [OF OPCODES_shape [OF op] _ field4_reg field4_zero field4_zero])
  ultimately show ?thesis by blast
qed

theorem wide_move_hex_literal_witness:
  "assemble_instruction ''MOVH R3, 0x2'' 0 initial_state
     = (Inr (Some ''01001100110000100000000000000000''), initial_state)
   \<and> assemble_instruction ''MOVH R3, 2'' 0 initial_state
     = (Inr (Some ''01001100110000100000000000000000''), initial_state)"
proof -
  have p1: "instr_parts ''MOVH R3, 0x2'' = Some (''MOVH'', [''R3'', ''0x2''])"
    and p2: "instr_parts ''MOVH R3, 2'' = Some (''MOVH'', [''R3'', ''2''])"
    and s: "startswith_0x ''0x2''"
    and v1: "py_int 16 ''0x2'' = Some 2"
    and v2: "py_int 10 ''2'' = Some 2"
    and e: "fst (assemble_instruction ''MOVH R3, 2'' 0 initial_state)
      = Inr (Some ''01001100110000100000000000000000'')"
    by code_simp+
  have m: "''MOVH'' \<in> set wide_mnemonics"
    by (simp add: wide_mnemonics_def)
  show ?thesis
    using wide_move_hex_literal [OF p1 p2 m s v1 v2, of 0 initial_state] e by auto
qed

theorem hex_literal_counterexample:
  "py_int 16 ''0x10'' = Some 16 \<and> py_int 10 ''16'' = Some 16
   \<and> fst (assemble_instruction ''ADD R1, R2, 16'' 0 initial_state)
       = Inr (Some ''00000100010010000000000000010000'')
   \<and> fst (assemble_instruction ''ADD R1, R2, 0x10'' 0 initial_state)
       = Inr (Some ''00000000010010None00000000000000'')
   \<and> fst (assemble_instruction ''CMP R1, 16'' 0 initial_state)
       = Inr (Some ''00101100000001000000000000010000'')
   \<and> fst (assemble_instruction ''CMP R1, 0x10'' 0 initial_state)
       = Inr (Some ''00101000000001None00000000000000'')"
  by code_simp

section \<open>Where the encoder departs from the specification\<close>

lemma encoded_word_length:
  assumes "fst (assemble_instruction line pc st) = Inr (Some w)"
  shows "length w = 32"
proof -
  obtain r st1 where a: "assemble_instruction line pc st = (r, st1)"
    by (cases "assemble_instruction line pc st")
  then have "word_shape w"
    using assemble_instruction_outcome(6) [OF a, of w] assms by simp
  then show ?thesis by (simp add: word_shape_def)
qed

text \<open>
  C4.  Every word the encoder returns has 32 characters (lemma
  \<open>encoded_word_length\<close>), but they are binary digits only when every register
  operand names a register: \<open>REGISTERS.get\<close> yields \<open>None\<close> for any other token and the
  f-string writes it as the four letters \<open>None\<close>.  The driver writes such a word to the
  binary file and then stops, because \<open>int(binary_code, 2)\<close> rejects it.
\<close>

theorem unknown_register_word:
  "fst (assemble_instruction ''ADD R1, R2, R16'' 0 initial_state)
     = Inr (Some ''00000000010010None00000000000000'')
   \<and> \<not> is_bits ''00000000010010None00000000000000''
   \<and> bin_lines (assemble_file [''ADD R1, R2, R16'', ''HLT''] initial_state)
     = [''00000000010010None00000000000000'']
   \<and> hex_lines (assemble_file [''ADD R1, R2, R16'', ''HLT''] initial_state) = []
   \<and> run_error (assemble_file [''ADD R1, R2, R16'', ''HLT''] initial_state)
     = Some (InvalidLiteral ''00000000010010None00000000000000'')"
  by code_simp

text \<open>
  C5.  Only the first pass removes comments.  The encoder splits the whole line, so
  the tokens of a trailing comment count as operands and a comment line is read as
  an instruction with the mnemonic \<open>#\<close>.
\<close>

theorem comment_not_stripped_by_encoder:
  "fst (assemble_instruction ''ADD R1, R2, R3'' 0 initial_state)
     = Inr (Some ''00000000010010001100000000000000'')
   \<and> fst (assemble_instruction ''ADD R1, R2, R3 # sum'' 0 initial_state)
     = Inl (InvalidInstructionFormat ''ADD R1, R2, R3 # sum'')
   \<and> fst (assemble_instruction ''# setup'' 0 initial_state) = Inl (UnknownInstruction ''#'')
   \<and> fst (first_pass_line ''ADD R1, R2, R3 # sum'' (0, initial_state)) = 4
   \<and> fst (first_pass_line ''# setup'' (0, initial_state)) = 0
   \<and> run_error (assemble_file [''# setup'', ''HLT''] initial_state)
     = Some (UnknownInstruction ''#'')
   \<and> bin_lines (assemble_file [''# setup'', ''HLT''] initial_state) = []"
  by code_simp

end
